theory Spec2Isabelle
  imports Main "HOL-Library.Sublist" "HOL-Library.AList"
begin

section \<open>Python strings\<close>

text \<open>
  A Python \<open>str\<close> is modelled as a \<open>string\<close>; a \<open>char\<close> stands for a code point
  below 256. The methods used by \<open>mailing.py\<close> are \<open>strip\<close>, \<open>split\<close> (no argument),
  \<open>lower\<close> and \<open>replace\<close>.
\<close>

definition is_space :: "char \<Rightarrow> bool" where
  "is_space c =
     (let n = (of_char c :: nat)
      in (9 \<le> n \<and> n \<le> 13) \<or> (28 \<le> n \<and> n \<le> 32) \<or> n = 133 \<or> n = 160)"

definition lower_char :: "char \<Rightarrow> char" where
  "lower_char c =
     (let n = (of_char c :: nat)
      in if (65 \<le> n \<and> n \<le> 90) \<or> (192 \<le> n \<and> n \<le> 222 \<and> n \<noteq> 215)
         then char_of (n + 32) else c)"

definition lower :: "string \<Rightarrow> string" where
  "lower s = map lower_char s"

definition strip :: "string \<Rightarrow> string" where
  "strip s = rev (dropWhile is_space (rev (dropWhile is_space s)))"

text \<open>\<open>s.split()\<close>: the maximal runs of non-whitespace characters, in order.\<close>

fun split_aux :: "string \<Rightarrow> string \<Rightarrow> string list" where
  "split_aux cur [] = (if cur = [] then [] else [rev cur])"
| "split_aux cur (c # cs) =
     (if is_space c
      then (if cur = [] then split_aux [] cs else rev cur # split_aux [] cs)
      else split_aux (c # cur) cs)"

definition split :: "string \<Rightarrow> string list" where
  "split s = split_aux [] s"

text \<open>
  \<open>s.replace(old, new)\<close>: every non-overlapping occurrence of \<open>old\<close>, found from the
  left, is replaced by \<open>new\<close>. For an empty \<open>old\<close> Python puts \<open>new\<close> before every
  character and at the end.
\<close>

function repl :: "string \<Rightarrow> string \<Rightarrow> string \<Rightarrow> string" where
  "repl old new s =
     (if s = [] \<or> old = [] then s
      else if prefix old s then new @ repl old new (drop (length old) s)
      else hd s # repl old new (tl s))"
  by pat_completeness auto
termination
  by (relation "measure (\<lambda>(old, new, s). length s)") auto

declare repl.simps [simp del]

definition replace :: "string \<Rightarrow> string \<Rightarrow> string \<Rightarrow> string" where
  "replace s old new =
     (if old = [] then new @ concat (map (\<lambda>c. c # new) s) else repl old new s)"

section \<open>Errors\<close>

datatype py_error =
    IndexError
  | AttributeError
  | ValueError
  | SMTPServerDisconnected
  | SMTPSendError

section \<open>Template rendering (\<open>create_html_email\<close>)\<close>

text \<open>\<open>first_name = nombre.split()[0]\<close> raises \<open>IndexError\<close> on an empty list.\<close>

definition first_name :: "string \<Rightarrow> py_error + string" where
  "first_name nombre = (case split nombre of [] \<Rightarrow> Inl IndexError | w # _ \<Rightarrow> Inr w)"

definition cid_of :: "string \<Rightarrow> string" where
  "cid_of filename = replace filename ''.'' ''_''"

definition img_src :: "string \<Rightarrow> string" where
  "img_src filename = ''src=\"images/'' @ filename @ ''\"''"

definition cid_src :: "string \<Rightarrow> string" where
  "cid_src filename = ''src=\"cid:'' @ cid_of filename @ ''\"''"

text \<open>The loop over \<open>images.keys()\<close>, lines 159 to 165.\<close>

fun rewrite_images :: "string list \<Rightarrow> string \<Rightarrow> string" where
  "rewrite_images [] html = html"
| "rewrite_images (filename # rest) html =
     rewrite_images rest (replace html (img_src filename) (cid_src filename))"

text \<open>
  Lines 155 to 165: the personalised HTML. A template that is \<open>None\<close> has no
  \<open>replace\<close> method; the name is split first.
\<close>

definition personalize :: "string \<Rightarrow> string option \<Rightarrow> py_error + string" where
  "personalize nombre html_template =
     (case first_name nombre of
        Inl e \<Rightarrow> Inl e
      | Inr fn \<Rightarrow>
          (case html_template of
             None \<Rightarrow> Inl AttributeError
           | Some t \<Rightarrow> Inr (replace t ''$name'' fn)))"

definition render :: "string \<Rightarrow> string option \<Rightarrow> string list \<Rightarrow> py_error + string" where
  "render nombre html_template filenames =
     (case personalize nombre html_template of
        Inl e \<Rightarrow> Inl e
      | Inr h \<Rightarrow> Inr (rewrite_images filenames h))"

section \<open>Contacts and the contact-list file\<close>

text \<open>
  The contact-list file is seen through the \<open>csv\<close> module: a file is the list of
  records that \<open>csv.reader\<close> yields and \<open>csv.writer\<close> writes, each a list of fields.
  A row read by \<open>csv.DictReader\<close> is a dictionary in insertion order. Its keys are the
  header's names, and \<open>None\<close> (the \<open>restkey\<close>) for the fields of a row longer than the
  header; its values are strings, \<open>None\<close> (the \<open>restval\<close>) for the fields a short row
  lacks, and the list of surplus fields under \<open>None\<close>.
\<close>

type_synonym csv_row = "string list"

type_synonym csv_file = "csv_row list"

datatype pyval = PStr string | PNone | PList "string list"

type_synonym pykey = "string option"

type_synonym contact = "(pykey \<times> pyval) list"

definition dict_get :: "contact \<Rightarrow> string \<Rightarrow> string \<Rightarrow> pyval" where
  "dict_get c k d = (case map_of c (Some k) of None \<Rightarrow> PStr d | Some v \<Rightarrow> v)"

definition dict_set :: "contact \<Rightarrow> string \<Rightarrow> string \<Rightarrow> contact" where
  "dict_set c k v = AList.update (Some k) (PStr v) c"

text \<open>\<open>DictReader.__next__\<close> for one non-blank record.\<close>

definition row_to_dict :: "string list \<Rightarrow> csv_row \<Rightarrow> contact" where
  "row_to_dict names row =
     (let d = fold (\<lambda>(k, v). AList.update (Some k) (PStr v)) (zip names row) [];
          lf = length names;
          lr = length row
      in if lf < lr then AList.update None (PList (drop lf row)) d
         else if lr < lf then fold (\<lambda>k. AList.update (Some k) PNone) (drop lr names) d
         else d)"

text \<open>
  \<open>list(csv.DictReader(f))\<close>: the first record is the header, blank records are
  skipped.
\<close>

fun dict_reader :: "csv_file \<Rightarrow> contact list" where
  "dict_reader [] = []"
| "dict_reader (header # rows) = map (row_to_dict header) (filter (\<lambda>r. r \<noteq> []) rows)"

definition fieldnames :: "string list" where
  "fieldnames = [''nombre'', ''email'', ''device'', ''enviado'', ''language'']"

text \<open>
  \<open>DictWriter._dict_to_list\<close> with the defaults \<open>extrasaction='raise'\<close> and
  \<open>restval=''\<close>; the writer writes \<open>None\<close> as the empty field.
\<close>

definition wrong_fields :: "contact \<Rightarrow> pykey list" where
  "wrong_fields c = filter (\<lambda>k. k \<notin> set (map Some fieldnames)) (map fst c)"

text \<open>
  \<open>str\<close> of a list of strings, which the writer would write for a list: the items in
  single quotes, separated by a comma and a space, in brackets (for items without quotes,
  backslashes or control characters). \<open>DictReader\<close> puts a list only under the key
  \<open>None\<close>, and a row with that key is refused before any of its cells is written.
\<close>

fun join :: "string \<Rightarrow> string list \<Rightarrow> string" where
  "join sep [] = []"
| "join sep [x] = x"
| "join sep (x # y # ys) = x @ sep @ join sep (y # ys)"

definition str_of_list :: "string list \<Rightarrow> string" where
  "str_of_list xs = ''['' @ join '', '' (map (\<lambda>s. [CHR 0x27] @ s @ [CHR 0x27]) xs) @ '']''"

fun cell :: "pyval option \<Rightarrow> string" where
  "cell None = []"
| "cell (Some (PStr s)) = s"
| "cell (Some PNone) = []"
| "cell (Some (PList xs)) = str_of_list xs"

definition row_of :: "contact \<Rightarrow> csv_row" where
  "row_of c = map (\<lambda>k. cell (map_of c (Some k))) fieldnames"

definition dict_to_list :: "contact \<Rightarrow> py_error + csv_row" where
  "dict_to_list c = (if wrong_fields c \<noteq> [] then Inl ValueError else Inr (row_of c))"

text \<open>
  \<open>writer.writerows(contactos)\<close> appends to the records written so far, one row at a
  time, and stops at the first row that raises.
\<close>

fun writerows :: "csv_file \<Rightarrow> contact list \<Rightarrow> py_error option \<times> csv_file" where
  "writerows out [] = (None, out)"
| "writerows out (c # cs) =
     (case dict_to_list c of
        Inl e \<Rightarrow> (Some e, out)
      | Inr row \<Rightarrow> writerows (out @ [row]) cs)"

text \<open>
  Lines 317 to 321: opening for writing truncates the file, then the header, then the
  rows. The \<open>with\<close> block closes the file whether or not a row raised.
\<close>

definition update_csv :: "contact list \<Rightarrow> py_error option \<times> csv_file" where
  "update_csv contactos = writerows ([] @ [fieldnames]) contactos"

section \<open>The mail session\<close>

text \<open>
  What the network does is a parameter of the run. \<open>connect_result\<close> is the outcome of
  lines 259 to 262 (connect, STARTTLS, login). \<open>send_result i\<close> is what happens when
  the message for the contact at position \<open>i\<close> is built and submitted on a live
  connection: it is delivered, an exception leaves the connection up, or the
  connection is lost. On a lost connection every later \<open>sendmail\<close> and \<open>quit\<close> of
  \<open>smtplib\<close> raises \<open>SMTPServerDisconnected\<close>. \<open>image_found p\<close> tells whether the image
  file at path \<open>p\<close> can be opened.
\<close>

datatype connect_error =
    SMTPAuthenticationError
  | Gaierror
  | ConnectionRefusedError
  | OtherConnectError

datatype send_outcome = Delivered | Refused | ConnectionLost

datatype server = Connected | Disconnected

record env =
  connect_result :: "connect_error option"
  send_result :: "nat \<Rightarrow> send_outcome"
  quit_ok :: bool
  image_found :: "string \<Rightarrow> bool"

record message =
  msg_subject :: string
  msg_html :: string
  msg_content_ids :: "string list"

text \<open>
  \<open>create_html_email\<close>: the rendered body and one inline part per image whose file is
  found.
\<close>

definition create_html_email ::
  "env \<Rightarrow> string \<Rightarrow> string option \<Rightarrow> (string \<times> string) list \<Rightarrow> string \<Rightarrow> py_error + message" where
  "create_html_email ev nombre html_template imgs subject =
     (case render nombre html_template (map fst imgs) of
        Inl e \<Rightarrow> Inl e
      | Inr html \<Rightarrow>
          Inr \<lparr>msg_subject = subject,
               msg_html = html,
               msg_content_ids =
                 map (\<lambda>(filename, filepath). ''<'' @ cid_of filename @ ''>'')
                   (filter (\<lambda>(filename, filepath). image_found ev filepath) imgs)\<rparr>)"

section \<open>The send loop (\<open>enviar_correos\<close>, lines 267 to 311)\<close>

record campaign =
  csv_file_path :: "string option"
  template_es :: "string option"
  template_en :: "string option"
  images :: "(string \<times> string) list"
  subjects :: "string \<Rightarrow> string option"

record fields =
  f_nombre :: string
  f_email :: string
  f_enviado :: string
  f_device :: string
  f_language :: string

text \<open>\<open>contacto.get(k, d).lower().strip()\<close>; \<open>None\<close> and lists have no \<open>lower\<close>.\<close>

definition lower_strip :: "contact \<Rightarrow> string \<Rightarrow> string \<Rightarrow> py_error + string" where
  "lower_strip c k d =
     (case dict_get c k d of PStr s \<Rightarrow> Inr (strip (lower s)) | _ \<Rightarrow> Inl AttributeError)"

text \<open>\<open>contacto.get('nombre', '').split()[0].strip()\<close>.\<close>

definition nombre_of :: "contact \<Rightarrow> py_error + string" where
  "nombre_of c =
     (case dict_get c ''nombre'' [] of
        PStr s \<Rightarrow> (case split s of [] \<Rightarrow> Inl IndexError | w # _ \<Rightarrow> Inr (strip w))
      | _ \<Rightarrow> Inl AttributeError)"

text \<open>Lines 268 to 272, in the order of the source.\<close>

definition read_fields :: "contact \<Rightarrow> py_error + fields" where
  "read_fields c =
     (case nombre_of c of Inl e \<Rightarrow> Inl e | Inr nombre \<Rightarrow>
      case lower_strip c ''email'' [] of Inl e \<Rightarrow> Inl e | Inr email \<Rightarrow>
      case lower_strip c ''enviado'' ''no'' of Inl e \<Rightarrow> Inl e | Inr enviado \<Rightarrow>
      case lower_strip c ''device'' ''no'' of Inl e \<Rightarrow> Inl e | Inr device \<Rightarrow>
      case lower_strip c ''language'' ''es'' of Inl e \<Rightarrow> Inl e | Inr language \<Rightarrow>
        Inr \<lparr>f_nombre = nombre, f_email = email, f_enviado = enviado,
             f_device = device, f_language = language\<rparr>)"

text \<open>Python truthiness of a template: \<open>None\<close> and the empty string are false.\<close>

definition truthy :: "string option \<Rightarrow> bool" where
  "truthy t = (case t of None \<Rightarrow> False | Some s \<Rightarrow> s \<noteq> [])"

definition templates_get :: "campaign \<Rightarrow> string \<Rightarrow> string option" where
  "templates_get cam language =
     (if language = ''es'' then template_es cam
      else if language = ''en'' then template_en cam
      else None)"

text \<open>One entry of the log per entry into the \<open>try\<close> block of line 298.\<close>

record attempt =
  at_index :: nat
  at_to :: string
  at_language :: string
  at_message :: "py_error + message"
  at_sent :: bool

datatype step =
    Raised py_error
  | Skipped
  | AlreadySent
  | Tried attempt contact server

text \<open>
  Lines 298 to 311. An exception of \<open>create_html_email\<close> or of \<open>sendmail\<close> is caught
  here; the contact is marked only after \<open>sendmail\<close> has returned.
\<close>

definition try_send ::
  "env \<Rightarrow> campaign \<Rightarrow> nat \<Rightarrow> server \<Rightarrow> contact \<Rightarrow> string \<Rightarrow> string \<Rightarrow>
     string option \<Rightarrow> string \<Rightarrow> string \<Rightarrow> step" where
  "try_send ev cam i srv c nombre email html_template language subject =
     (let m = create_html_email ev nombre html_template (images cam) subject;
          a = \<lparr>at_index = i, at_to = email, at_language = language,
               at_message = m, at_sent = False\<rparr>
      in case m of
           Inl e \<Rightarrow> Tried a c srv
         | Inr msg \<Rightarrow>
             (case srv of
                Disconnected \<Rightarrow> Tried a c Disconnected
              | Connected \<Rightarrow>
                  (case send_result ev i of
                     Delivered \<Rightarrow>
                       Tried (a\<lparr>at_sent := True\<rparr>) (dict_set c ''enviado'' ''si'') Connected
                   | Refused \<Rightarrow> Tried a c Connected
                   | ConnectionLost \<Rightarrow> Tried a c Disconnected)))"

text \<open>The body of the loop for one contact, lines 268 to 311.\<close>

definition procesar_contacto :: "env \<Rightarrow> campaign \<Rightarrow> nat \<Rightarrow> server \<Rightarrow> contact \<Rightarrow> step" where
  "procesar_contacto ev cam i srv c =
     (case read_fields c of
        Inl e \<Rightarrow> Raised e
      | Inr f \<Rightarrow>
          (let language = (if f_language f \<notin> set [''es'', ''en''] then ''es'' else f_language f)
           in if f_nombre f = [] \<or> f_email f = [] \<or> f_device f = ''android'' then Skipped
              else if f_enviado f = ''si'' then AlreadySent
              else
                (let html_template = templates_get cam language
                 in if \<not> truthy html_template
                    then try_send ev cam i srv c (f_nombre f) (f_email f) (template_es cam) ''es''
                           (case subjects cam ''es'' of
                              Some s \<Rightarrow> s
                            | None \<Rightarrow> ''Spotter AI'')
                    else try_send ev cam i srv c (f_nombre f) (f_email f) html_template language
                           (case subjects cam language of
                              Some s \<Rightarrow> s
                            | None \<Rightarrow>
                                (case subjects cam ''es'' of
                                   Some s \<Rightarrow> s
                                 | None \<Rightarrow> ''Spotter AI'')))))"

record loop_result =
  lr_error :: "py_error option"
  lr_server :: server
  lr_contacts :: "contact list"
  lr_log :: "attempt list"

text \<open>
  The \<open>for\<close> loop over \<open>contactos\<close>, from position \<open>i\<close>. An exception outside the inner
  \<open>try\<close> leaves the loop; the contacts from there on are not looked at.
\<close>

fun send_loop :: "env \<Rightarrow> campaign \<Rightarrow> nat \<Rightarrow> server \<Rightarrow> contact list \<Rightarrow> loop_result" where
  "send_loop ev cam i srv [] =
     \<lparr>lr_error = None, lr_server = srv, lr_contacts = [], lr_log = []\<rparr>"
| "send_loop ev cam i srv (c # cs) =
     (case procesar_contacto ev cam i srv c of
        Raised e \<Rightarrow>
          \<lparr>lr_error = Some e, lr_server = srv, lr_contacts = c # cs, lr_log = []\<rparr>
      | Skipped \<Rightarrow>
          (let r = send_loop ev cam (Suc i) srv cs
           in r\<lparr>lr_contacts := c # lr_contacts r\<rparr>)
      | AlreadySent \<Rightarrow>
          (let r = send_loop ev cam (Suc i) srv cs
           in r\<lparr>lr_contacts := c # lr_contacts r\<rparr>)
      | Tried a c' srv' \<Rightarrow>
          (let r = send_loop ev cam (Suc i) srv' cs
           in r\<lparr>lr_contacts := c' # lr_contacts r, lr_log := a # lr_log r\<rparr>))"

section \<open>The whole run (\<open>enviar_correos\<close>)\<close>

text \<open>
  The run starts from what \<open>load_campaign_config\<close>, \<open>load_all_templates\<close> and
  \<open>get_images_to_embed\<close> have read (\<open>None\<close> for a campaign that is not found) and from
  the files of the campaign folder, a map from paths to contents.
\<close>

datatype outcome =
    CampaignNotFound
  | NoCsvInFolder
  | NoTemplates
  | CsvFileNotFound
  | CsvEmpty
  | Crashed py_error
  | NothingPending
  | ConnectFailed connect_error
  | Unexpected py_error
  | Completed

record run =
  run_outcome :: outcome
  run_files :: "string \<rightharpoonup> csv_file"
  run_log :: "attempt list"

text \<open>
  Line 249. The generator is outside every \<open>try\<close>: a value without \<open>lower\<close> ends the
  program.
\<close>

fun count_pendientes :: "contact list \<Rightarrow> py_error + nat" where
  "count_pendientes [] = Inr 0"
| "count_pendientes (c # cs) =
     (case lower_strip c ''enviado'' ''no'' of
        Inl e \<Rightarrow> Inl e
      | Inr enviado \<Rightarrow>
          (case count_pendientes cs of
             Inl e \<Rightarrow> Inl e
           | Inr n \<Rightarrow> Inr (if enviado \<noteq> ''si'' then Suc n else n)))"

text \<open>Lines 257 to 331, once the contacts are loaded and some are pending.\<close>

definition session ::
  "env \<Rightarrow> campaign \<Rightarrow> string \<Rightarrow> (string \<rightharpoonup> csv_file) \<Rightarrow> contact list \<Rightarrow> run" where
  "session ev cam path files contactos =
     (case connect_result ev of
        Some e \<Rightarrow> \<lparr>run_outcome = ConnectFailed e, run_files = files, run_log = []\<rparr>
      | None \<Rightarrow>
          (let r = send_loop ev cam 0 Connected contactos
           in case lr_error r of
                Some e \<Rightarrow> \<lparr>run_outcome = Unexpected e, run_files = files, run_log = lr_log r\<rparr>
              | None \<Rightarrow>
                  if lr_server r = Disconnected \<or> \<not> quit_ok ev
                  then \<lparr>run_outcome = Unexpected SMTPServerDisconnected, run_files = files,
                        run_log = lr_log r\<rparr>
                  else
                    (case update_csv (lr_contacts r) of
                       (Some e, written) \<Rightarrow>
                         \<lparr>run_outcome = Unexpected e, run_files = files(path \<mapsto> written),
                          run_log = lr_log r\<rparr>
                     | (None, written) \<Rightarrow>
                         \<lparr>run_outcome = Completed, run_files = files(path \<mapsto> written),
                          run_log = lr_log r\<rparr>)))"

definition enviar_correos ::
  "env \<Rightarrow> campaign option \<Rightarrow> (string \<rightharpoonup> csv_file) \<Rightarrow> run" where
  "enviar_correos ev campaign_config files =
     (let stop = (\<lambda>out. \<lparr>run_outcome = out, run_files = files, run_log = []\<rparr>)
      in case campaign_config of
           None \<Rightarrow> stop CampaignNotFound
         | Some cam \<Rightarrow>
             (case csv_file_path cam of
                None \<Rightarrow> stop NoCsvInFolder
              | Some path \<Rightarrow>
                  if \<not> truthy (template_es cam) \<and> \<not> truthy (template_en cam)
                  then stop NoTemplates
                  else
                    (case files path of
                       None \<Rightarrow> stop CsvFileNotFound
                     | Some f \<Rightarrow>
                         (let contactos = dict_reader f
                          in if contactos = [] then stop CsvEmpty
                             else
                               (case count_pendientes contactos of
                                  Inl e \<Rightarrow> stop (Crashed e)
                                | Inr pendientes \<Rightarrow>
                                    if pendientes = 0 then stop NothingPending
                                    else session ev cam path files contactos)))))"

section \<open>Image names and the single-pass reading of the rewriting\<close>

text \<open>
  \<open>get_images_to_embed\<close>, line 128: the names kept are those whose lowercased form ends
  in one of four extensions.
\<close>

definition is_image_name :: "string \<Rightarrow> bool" where
  "is_image_name filename =
     list_ex (\<lambda>ext. suffix ext (lower filename)) [''.png'', ''.jpg'', ''.jpeg'', ''.gif'']"

text \<open>
  The rewriting as the specification words it, for comparison with \<open>rewrite_images\<close>: one
  pass over the HTML from the left; where \<open>src="images/<filename>"\<close> of a known filename
  starts, it is replaced by \<open>src="cid:<contentId>"\<close> and the pass goes on behind it;
  every other character is copied.
\<close>

function rewrite_scan :: "string list \<Rightarrow> string \<Rightarrow> string" where
  "rewrite_scan filenames s =
     (if s = [] then []
      else case find (\<lambda>f. prefix (img_src f) s) filenames of
             Some f \<Rightarrow> cid_src f @ rewrite_scan filenames (drop (length (img_src f)) s)
           | None \<Rightarrow> hd s # rewrite_scan filenames (tl s))"
  by pat_completeness auto
termination
  by (relation "measure (\<lambda>(filenames, s). length s)") (auto simp add: img_src_def)

declare rewrite_scan.simps [simp del]

text \<open>The part of a string before its first double quote.\<close>

definition upto_quote :: "string \<Rightarrow> string" where
  "upto_quote s = takeWhile (\<lambda>c. c \<noteq> CHR 0x22) s"

text \<open>
  Both \<open>img_src f\<close> and \<open>cid_src f\<close> have the shape \<open>src="W"\<close>; \<open>W\<close> is plain when it
  has no double quote and does not end in \<open>src=\<close>.
\<close>

definition plain :: "string \<Rightarrow> bool" where
  "plain w \<longleftrightarrow> CHR 0x22 \<notin> set w \<and> \<not> suffix ''src='' w"

section \<open>Contacts that the loop sends to\<close>

text \<open>
  A contact is pending when its fields read without error and it passes both checks of
  lines 278 and 282: it has a name and an address, its device is not \<open>android\<close> and it
  is not marked \<open>si\<close>.
\<close>

definition pending :: "contact \<Rightarrow> bool" where
  "pending c =
     (case read_fields c of
        Inl e \<Rightarrow> False
      | Inr f \<Rightarrow>
          \<not> (f_nombre f = [] \<or> f_email f = [] \<or> f_device f = ''android'')
          \<and> f_enviado f \<noteq> ''si'')"

section \<open>Concrete campaigns, files and networks\<close>

definition ex_campaign :: campaign where
  "ex_campaign =
     \<lparr>csv_file_path = Some ''contactos.csv'',
      template_es = Some ''<p>Hola $name</p><img src=\"images/logo.png\">'',
      template_en = None,
      images = [(''logo.png'', ''campaigns/beta/images/logo.png'')],
      subjects = (\<lambda>l. None)\<rparr>"

definition ex_file :: csv_file where
  "ex_file =
     [[''nombre'', ''email'', ''device'', ''enviado'', ''language''],
      [''Ana Ruiz'', ''a@x.com'', ''ios'', ''no'', ''es''],
      [''Bob'', ''b@x.com'', ''android'', ''no'', ''en''],
      [''Eva Sanz'', ''e@x.com'', ''ios'', '' SI '', ''es''],
      [''Luis Gil'', ''l@x.com'', ''ios'', ''no'', ''es'']]"

definition ex_file_sent :: csv_file where
  "ex_file_sent =
     [[''nombre'', ''email'', ''device'', ''enviado'', ''language''],
      [''Ana Ruiz'', ''a@x.com'', ''ios'', ''si'', ''es''],
      [''Eva Sanz'', ''e@x.com'', ''ios'', '' SI '', ''es'']]"

definition ex_file_blank :: csv_file where
  "ex_file_blank =
     [[''nombre'', ''email'', ''device'', ''enviado'', ''language''],
      [''Ana Ruiz'', ''a@x.com'', ''ios'', ''no'', ''es''],
      [''  '', ''b@x.com'', ''ios'', ''no'', ''es''],
      [''Luis Gil'', ''l@x.com'', ''ios'', ''no'', ''es'']]"

definition ex_file_extra :: csv_file where
  "ex_file_extra =
     [[''nombre'', ''email'', ''device'', ''enviado'', ''language''],
      [''Ana Ruiz'', ''a@x.com'', ''ios'', ''no'', ''es''],
      [''Luis Gil'', ''l@x.com'', ''ios'', ''no'', ''es'', ''extra''],
      [''Eva Sanz'', ''e@x.com'', ''ios'', ''no'', ''es'']]"

definition ex_files :: "csv_file \<Rightarrow> (string \<rightharpoonup> csv_file)" where
  "ex_files f = [''contactos.csv'' \<mapsto> f]"

definition ex_env :: env where
  "ex_env =
     \<lparr>connect_result = None, send_result = (\<lambda>i. Delivered), quit_ok = True,
      image_found = (\<lambda>p. True)\<rparr>"

definition ex_env_auth :: env where
  "ex_env_auth = ex_env\<lparr>connect_result := Some SMTPAuthenticationError\<rparr>"

definition ex_env_lost :: env where
  "ex_env_lost = ex_env\<lparr>send_result := (\<lambda>i. if i = 0 then ConnectionLost else Delivered)\<rparr>"

definition ex_env_refused :: env where
  "ex_env_refused = ex_env\<lparr>send_result := (\<lambda>i. if i = 0 then Refused else Delivered)\<rparr>"

definition ex_names :: "string list" where
  "ex_names = [''logo.png'', ''Foto.JPG'']"

definition ex_html :: string where
  "ex_html =
     ''<p>Hola $name</p><img src=\"images/logo.png\"><img src=\"images/otra.png\"><img src=\"images/Foto.JPG\">''"

definition ex_odd_names :: "string list" where
  "ex_odd_names = [''b.png'', ''a\" src=\"cid:b_png\" .png'']"

definition ex_odd_html :: string where
  "ex_odd_html = ''src=\"images/a\" src=\"images/b.png\" .png\"''"


section \<open>Properties of the string functions\<close>

lemma split_aux_Nil_iff: "split_aux cur s = [] \<longleftrightarrow> cur = [] \<and> (\<forall>c\<in>set s. is_space c)"
  by (induction s arbitrary: cur) auto

lemma split_Nil_iff: "split s = [] \<longleftrightarrow> (\<forall>c\<in>set s. is_space c)"
  by (simp add: split_def split_aux_Nil_iff)

section \<open>Properties of the send loop\<close>

lemma count_pendientes_all_si:
  "\<forall>c\<in>set cs. lower_strip c ''enviado'' ''no'' = Inr ''si'' \<Longrightarrow> count_pendientes cs = Inr 0"
  by (induction cs) auto

lemma read_fields_InrD:
  "read_fields c = Inr f \<Longrightarrow>
     lower_strip c ''enviado'' ''no'' = Inr (f_enviado f)
   \<and> lower_strip c ''device'' ''no'' = Inr (f_device f)"
  by (auto simp add: read_fields_def split: sum.splits)

lemma try_send_Tried:
  assumes "try_send ev cam i srv c nombre email t l subj = st"
  shows "\<exists>a c' srv'. st = Tried a c' srv'"
    and "st = Tried a c' srv' \<Longrightarrow> at_index a = i"
    and "st = Tried a c' srv' \<Longrightarrow> c' = (if at_sent a then dict_set c ''enviado'' ''si'' else c)"
    and "st = Tried a c' srv' \<Longrightarrow> at_sent a \<Longrightarrow> srv = Connected \<and> srv' = Connected \<and> send_result ev i = Delivered"
    and "st = Tried a c' srv' \<Longrightarrow> srv = Disconnected \<Longrightarrow> srv' = Disconnected"
  using assms
  by (auto simp add: try_send_def Let_def split: sum.splits server.splits send_outcome.splits)

lemma procesar_Tried:
  assumes "procesar_contacto ev cam i srv c = Tried a c' srv'"
  shows "at_index a = i"
    and "c' = (if at_sent a then dict_set c ''enviado'' ''si'' else c)"
    and "at_sent a \<Longrightarrow> srv = Connected \<and> srv' = Connected \<and> send_result ev i = Delivered"
    and "srv = Disconnected \<Longrightarrow> srv' = Disconnected"
    and "\<exists>f. read_fields c = Inr f \<and> f_device f \<noteq> ''android'' \<and> f_enviado f \<noteq> ''si''"
proof -
  from assms obtain f where f: "read_fields c = Inr f"
    by (auto simp add: procesar_contacto_def split: sum.splits)
  from assms f have g: "f_device f \<noteq> ''android''" "f_enviado f \<noteq> ''si''"
    by (auto simp add: procesar_contacto_def Let_def split: if_splits)
  from assms f g obtain nombre email t l subj where
    t: "try_send ev cam i srv c nombre email t l subj = Tried a c' srv'"
    by (auto simp add: procesar_contacto_def Let_def split: if_splits)
  show "at_index a = i" using try_send_Tried(2) [OF t] by simp
  show "c' = (if at_sent a then dict_set c ''enviado'' ''si'' else c)"
    using try_send_Tried(3) [OF t] by simp
  show "at_sent a \<Longrightarrow> srv = Connected \<and> srv' = Connected \<and> send_result ev i = Delivered"
    using try_send_Tried(4) [OF t] by simp
  show "srv = Disconnected \<Longrightarrow> srv' = Disconnected"
    using try_send_Tried(5) [OF t] by simp
  show "\<exists>f. read_fields c = Inr f \<and> f_device f \<noteq> ''android'' \<and> f_enviado f \<noteq> ''si''"
    using f g by blast
qed


lemma loop_log:
  assumes "a \<in> set (lr_log (send_loop ev cam i srv cs))"
  shows "i \<le> at_index a \<and> at_index a < i + length cs
       \<and> (\<exists>f. read_fields (cs ! (at_index a - i)) = Inr f
              \<and> f_device f \<noteq> ''android'' \<and> f_enviado f \<noteq> ''si'')
       \<and> (at_sent a \<longrightarrow> send_result ev (at_index a) = Delivered)"
  using assms
proof (induction cs arbitrary: i srv)
  case Nil
  then show ?case by simp
next
  case (Cons c cs)
  show ?case
  proof (cases "procesar_contacto ev cam i srv c")
    case (Raised e)
    with Cons.prems show ?thesis by simp
  next
    case Skipped
    with Cons.prems have "a \<in> set (lr_log (send_loop ev cam (Suc i) srv cs))"
      by (simp add: Let_def)
    from Cons.IH [OF this] show ?thesis by (auto simp add: Suc_diff_le)
  next
    case AlreadySent
    with Cons.prems have "a \<in> set (lr_log (send_loop ev cam (Suc i) srv cs))"
      by (simp add: Let_def)
    from Cons.IH [OF this] show ?thesis by (auto simp add: Suc_diff_le)
  next
    case (Tried b c' srv')
    with Cons.prems have "a = b \<or> a \<in> set (lr_log (send_loop ev cam (Suc i) srv' cs))"
      by (simp add: Let_def)
    then show ?thesis
    proof
      assume "a = b"
      with procesar_Tried [OF Tried] show ?thesis by auto
    next
      assume "a \<in> set (lr_log (send_loop ev cam (Suc i) srv' cs))"
      from Cons.IH [OF this] show ?thesis by (auto simp add: Suc_diff_le)
    qed
  qed
qed

lemma loop_contacts:
  assumes "lr_error (send_loop ev cam i srv cs) = None"
  shows "length (lr_contacts (send_loop ev cam i srv cs)) = length cs
       \<and> (\<forall>j<length cs. lr_contacts (send_loop ev cam i srv cs) ! j =
            (if \<exists>a\<in>set (lr_log (send_loop ev cam i srv cs)). at_index a = i + j \<and> at_sent a
             then dict_set (cs ! j) ''enviado'' ''si'' else cs ! j))"
  using assms
proof (induction cs arbitrary: i srv)
  case Nil
  then show ?case by simp
next
  case (Cons c cs)
  have later: "\<And>s a. a \<in> set (lr_log (send_loop ev cam (Suc i) s cs)) \<Longrightarrow> at_index a \<noteq> i"
    using loop_log by fastforce
  have shift: "\<And>s j. (\<exists>a\<in>set (lr_log (send_loop ev cam (Suc i) s cs)). at_index a = Suc i + j \<and> at_sent a)
      = (\<exists>a\<in>set (lr_log (send_loop ev cam (Suc i) s cs)). at_index a = i + Suc j \<and> at_sent a)"
    by simp
  show ?case
  proof (cases "procesar_contacto ev cam i srv c")
    case (Raised e)
    with Cons.prems show ?thesis by simp
  next
    case Skipped
    with Cons.prems have e: "lr_error (send_loop ev cam (Suc i) srv cs) = None"
      by (simp add: Let_def)
    from Cons.IH [OF e] Skipped later [of _ srv] show ?thesis
      by (auto simp add: Let_def nth_Cons split: nat.splits)
  next
    case AlreadySent
    with Cons.prems have e: "lr_error (send_loop ev cam (Suc i) srv cs) = None"
      by (simp add: Let_def)
    from Cons.IH [OF e] AlreadySent later [of _ srv] show ?thesis
      by (auto simp add: Let_def nth_Cons split: nat.splits)
  next
    case (Tried b c' srv')
    with Cons.prems have e: "lr_error (send_loop ev cam (Suc i) srv' cs) = None"
      by (simp add: Let_def)
    from Cons.IH [OF e] Tried later [of _ srv'] procesar_Tried(1,2) [OF Tried] show ?thesis
      by (auto simp add: Let_def nth_Cons split: nat.splits)
  qed
qed


lemma loop_raise:
  assumes "j < length cs" and "read_fields (cs ! j) = Inl e"
  shows "lr_error (send_loop ev cam i srv cs) \<noteq> None
       \<and> (\<forall>a\<in>set (lr_log (send_loop ev cam i srv cs)). at_index a < i + j)"
  using assms
proof (induction cs arbitrary: i srv j)
  case Nil
  then show ?case by simp
next
  case (Cons c cs)
  show ?case
  proof (cases j)
    case 0
    with Cons.prems show ?thesis by (simp add: procesar_contacto_def)
  next
    case (Suc j')
    with Cons.prems have j': "j' < length cs" "read_fields (cs ! j') = Inl e" by simp_all
    show ?thesis
    proof (cases "procesar_contacto ev cam i srv c")
      case (Raised e')
      then show ?thesis by simp
    next
      case Skipped
      with Cons.IH [OF j', of "Suc i" srv] Suc show ?thesis by (auto simp add: Let_def)
    next
      case AlreadySent
      with Cons.IH [OF j', of "Suc i" srv] Suc show ?thesis by (auto simp add: Let_def)
    next
      case (Tried b c' srv')
      with Cons.IH [OF j', of "Suc i" srv'] Suc procesar_Tried(1) [OF Tried] show ?thesis
        by (auto simp add: Let_def)
    qed
  qed
qed

lemma loop_disconnected:
  "lr_server (send_loop ev cam i Disconnected cs) = Disconnected
   \<and> (\<forall>b\<in>set (lr_log (send_loop ev cam i Disconnected cs)). \<not> at_sent b)"
proof (induction cs arbitrary: i)
  case Nil
  show ?case by simp
next
  case (Cons c cs)
  show ?case
  proof (cases "procesar_contacto ev cam i Disconnected c")
    case (Raised e)
    then show ?thesis by simp
  next
    case Skipped
    with Cons.IH [of "Suc i"] show ?thesis by (simp add: Let_def)
  next
    case AlreadySent
    with Cons.IH [of "Suc i"] show ?thesis by (simp add: Let_def)
  next
    case (Tried b c' srv')
    from procesar_Tried(3,4) [OF Tried] have "srv' = Disconnected" "\<not> at_sent b" by auto
    with Tried Cons.IH [of "Suc i"] show ?thesis by (simp add: Let_def)
  qed
qed

lemma procesar_lost:
  assumes "procesar_contacto ev cam i srv c = Tried a c' srv'"
    and "send_result ev i = ConnectionLost" and "at_message a = Inr m"
  shows "srv' = Disconnected \<and> \<not> at_sent a"
proof -
  from assms(1) obtain nombre email t l subj where
    t: "try_send ev cam i srv c nombre email t l subj = Tried a c' srv'"
    by (auto simp add: procesar_contacto_def Let_def split: sum.splits if_splits)
  with assms(2,3) show ?thesis
    by (auto simp add: try_send_def Let_def split: sum.splits server.splits)
qed

lemma loop_lost:
  assumes "a \<in> set (lr_log (send_loop ev cam i srv cs))"
    and "send_result ev (at_index a) = ConnectionLost" and "at_message a = Inr m"
  shows "lr_server (send_loop ev cam i srv cs) = Disconnected
       \<and> (\<forall>b\<in>set (lr_log (send_loop ev cam i srv cs)). at_index a \<le> at_index b \<longrightarrow> \<not> at_sent b)"
  using assms(1)
proof (induction cs arbitrary: i srv)
  case Nil
  then show ?case by simp
next
  case (Cons c cs)
  have later: "\<And>s b. b \<in> set (lr_log (send_loop ev cam (Suc i) s cs)) \<Longrightarrow> i < at_index b"
    using loop_log by fastforce
  show ?case
  proof (cases "procesar_contacto ev cam i srv c")
    case (Raised e)
    with Cons.prems show ?thesis by simp
  next
    case Skipped
    with Cons.prems have "a \<in> set (lr_log (send_loop ev cam (Suc i) srv cs))"
      by (simp add: Let_def)
    from Cons.IH [OF this] Skipped show ?thesis by (simp add: Let_def)
  next
    case AlreadySent
    with Cons.prems have "a \<in> set (lr_log (send_loop ev cam (Suc i) srv cs))"
      by (simp add: Let_def)
    from Cons.IH [OF this] AlreadySent show ?thesis by (simp add: Let_def)
  next
    case (Tried b c' srv')
    with Cons.prems have "a = b \<or> a \<in> set (lr_log (send_loop ev cam (Suc i) srv' cs))"
      by (simp add: Let_def)
    then show ?thesis
    proof
      assume ab: "a = b"
      from procesar_Tried(1) [OF Tried] ab have "at_index a = i" by simp
      with procesar_lost [OF Tried] assms(2,3) ab
      have "srv' = Disconnected" "\<not> at_sent b" by auto
      with Tried loop_disconnected [of ev cam "Suc i" cs] show ?thesis
        by (simp add: Let_def)
    next
      assume in_rest: "a \<in> set (lr_log (send_loop ev cam (Suc i) srv' cs))"
      from later [OF in_rest] procesar_Tried(1) [OF Tried]
      have "\<not> at_index a \<le> at_index b" by simp
      with Cons.IH [OF in_rest] Tried show ?thesis by (simp add: Let_def)
    qed
  qed
qed

lemma writerows_None:
  "writerows out cs = (None, w) \<longleftrightarrow>
     (\<forall>c\<in>set cs. wrong_fields c = []) \<and> w = out @ map row_of cs"
  by (induction cs arbitrary: out) (auto simp add: dict_to_list_def)

lemma writerows_Some:
  "writerows out cs = (Some e, w) \<longleftrightarrow>
     e = ValueError \<and> (\<exists>c\<in>set cs. wrong_fields c \<noteq> [])
     \<and> w = out @ map row_of (takeWhile (\<lambda>c. wrong_fields c = []) cs)"
  by (induction cs arbitrary: out) (auto simp add: dict_to_list_def)


lemma read_fields_error: "read_fields c = Inl e \<Longrightarrow> e = IndexError \<or> e = AttributeError"
  by (auto simp add: read_fields_def nombre_of_def lower_strip_def
      split: sum.splits pyval.splits list.splits)

lemma procesar_Raised: "procesar_contacto ev cam i srv c = Raised e \<Longrightarrow> read_fields c = Inl e"
  by (auto simp add: procesar_contacto_def Let_def try_send_def
      split: sum.splits if_splits server.splits send_outcome.splits)

lemma loop_error: "lr_error (send_loop ev cam i srv cs) = Some e \<Longrightarrow> e = IndexError \<or> e = AttributeError"
proof (induction cs arbitrary: i srv)
  case Nil
  then show ?case by simp
next
  case (Cons c cs)
  show ?case
  proof (cases "procesar_contacto ev cam i srv c")
    case (Raised e')
    with Cons.prems have "e' = e" by simp
    with read_fields_error [OF procesar_Raised [OF Raised]] show ?thesis by simp
  next
    case Skipped
    with Cons.prems Cons.IH [of "Suc i" srv] show ?thesis by (simp add: Let_def)
  next
    case AlreadySent
    with Cons.prems Cons.IH [of "Suc i" srv] show ?thesis by (simp add: Let_def)
  next
    case (Tried b c' srv')
    with Cons.prems Cons.IH [of "Suc i" srv'] show ?thesis by (simp add: Let_def)
  qed
qed

lemma enviar_cases:
  assumes "csv_file_path cam = Some path" and "files path = Some f"
  shows "enviar_correos ev (Some cam) files = session ev cam path files (dict_reader f)
       \<or> (run_files (enviar_correos ev (Some cam) files) = files
          \<and> run_log (enviar_correos ev (Some cam) files) = []
          \<and> run_outcome (enviar_correos ev (Some cam) files) \<noteq> Completed
          \<and> run_outcome (enviar_correos ev (Some cam) files) \<noteq> Unexpected ValueError)"
  using assms by (auto simp add: enviar_correos_def Let_def split: sum.splits)

lemma session_log:
  "run_log (session ev cam path files cs) = [] \<or>
   run_log (session ev cam path files cs) = lr_log (send_loop ev cam 0 Connected cs)"
  by (auto simp add: session_def Let_def split: option.splits prod.splits)

lemma session_Completed:
  assumes "run_outcome (session ev cam path files cs) = Completed"
  shows "lr_error (send_loop ev cam 0 Connected cs) = None"
    and "run_log (session ev cam path files cs) = lr_log (send_loop ev cam 0 Connected cs)"
    and "run_files (session ev cam path files cs) =
           files(path \<mapsto> fieldnames # map row_of (lr_contacts (send_loop ev cam 0 Connected cs)))"
  using assms
  by (auto simp add: session_def Let_def update_csv_def writerows_None
      split: option.splits prod.splits if_splits)

lemma session_ValueError:
  assumes "run_outcome (session ev cam path files cs) = Unexpected ValueError"
  shows "lr_error (send_loop ev cam 0 Connected cs) = None"
    and "run_files (session ev cam path files cs) =
           files(path \<mapsto> fieldnames # map row_of
             (takeWhile (\<lambda>c. wrong_fields c = []) (lr_contacts (send_loop ev cam 0 Connected cs))))"
    and "\<exists>c\<in>set (lr_contacts (send_loop ev cam 0 Connected cs)). wrong_fields c \<noteq> []"
  using assms loop_error [of ev cam 0 Connected cs ValueError]
  by (auto simp add: session_def Let_def update_csv_def writerows_Some
      split: option.splits prod.splits if_splits)

lemma session_error:
  assumes "lr_error (send_loop ev cam 0 Connected cs) \<noteq> None
         \<or> lr_server (send_loop ev cam 0 Connected cs) = Disconnected"
  shows "run_files (session ev cam path files cs) = files"
    and "run_outcome (session ev cam path files cs) \<noteq> Completed"
    and "connect_result ev = None \<Longrightarrow> \<exists>e. run_outcome (session ev cam path files cs) = Unexpected e"
  using assms
  by (auto simp add: session_def Let_def split: option.splits prod.splits if_splits)


lemma row_of_dict_set: "row_of (dict_set c ''enviado'' ''si'') = (row_of c)[3 := ''si'']"
  by (simp add: row_of_def dict_set_def fieldnames_def update_conv')

lemma row_of_enviado: "row_of c ! 3 = cell (map_of c (Some ''enviado''))"
  by (simp add: row_of_def fieldnames_def)

lemma length_row_of: "length (row_of c) = 5"
  by (simp add: row_of_def fieldnames_def)

lemma wrong_fields_dict_set: "wrong_fields (dict_set c ''enviado'' ''si'') = wrong_fields c"
  by (auto simp add: wrong_fields_def dict_set_def update_keys fieldnames_def)


lemma loop_first_raise:
  assumes "j < length cs" and "read_fields (cs ! j) = Inl e"
    and "\<forall>k<j. \<exists>fl. read_fields (cs ! k) = Inr fl"
  shows "lr_error (send_loop ev cam i srv cs) = Some e"
  using assms
proof (induction cs arbitrary: i srv j)
  case Nil
  then show ?case by simp
next
  case (Cons c cs)
  show ?case
  proof (cases j)
    case 0
    with Cons.prems show ?thesis by (simp add: procesar_contacto_def)
  next
    case (Suc j')
    with Cons.prems have j': "j' < length cs" "read_fields (cs ! j') = Inl e"
      and before: "\<forall>k<j'. \<exists>fl. read_fields (cs ! k) = Inr fl"
      and first: "\<exists>fl. read_fields c = Inr fl"
      by auto
    show ?thesis
    proof (cases "procesar_contacto ev cam i srv c")
      case (Raised e')
      from procesar_Raised [OF Raised] first show ?thesis by auto
    next
      case Skipped
      with Cons.IH [OF j' before, of "Suc i" srv] show ?thesis by (simp add: Let_def)
    next
      case AlreadySent
      with Cons.IH [OF j' before, of "Suc i" srv] show ?thesis by (simp add: Let_def)
    next
      case (Tried b c' srv')
      with Cons.IH [OF j' before, of "Suc i" srv'] show ?thesis by (simp add: Let_def)
    qed
  qed
qed

lemma loop_no_error:
  assumes "\<forall>c\<in>set cs. \<exists>fl. read_fields c = Inr fl"
  shows "lr_error (send_loop ev cam i srv cs) = None"
  using assms
proof (induction cs arbitrary: i srv)
  case Nil
  show ?case by simp
next
  case (Cons c cs)
  then have rest: "\<forall>c\<in>set cs. \<exists>fl. read_fields c = Inr fl"
    and first: "\<exists>fl. read_fields c = Inr fl" by simp_all
  show ?case
  proof (cases "procesar_contacto ev cam i srv c")
    case (Raised e')
    from procesar_Raised [OF Raised] first show ?thesis by auto
  next
    case Skipped
    with Cons.IH [OF rest, of "Suc i" srv] show ?thesis by (simp add: Let_def)
  next
    case AlreadySent
    with Cons.IH [OF rest, of "Suc i" srv] show ?thesis by (simp add: Let_def)
  next
    case (Tried b c' srv')
    with Cons.IH [OF rest, of "Suc i" srv'] show ?thesis by (simp add: Let_def)
  qed
qed

lemma procesar_stays_connected:
  assumes "procesar_contacto ev cam i Connected c = Tried a c' srv'"
    and "send_result ev i \<noteq> ConnectionLost"
  shows "srv' = Connected"
proof -
  from assms(1) obtain nombre email t l subj where
    "try_send ev cam i Connected c nombre email t l subj = Tried a c' srv'"
    by (auto simp add: procesar_contacto_def Let_def split: sum.splits if_splits)
  with assms(2) show ?thesis
    by (auto simp add: try_send_def Let_def split: sum.splits send_outcome.splits)
qed

lemma loop_stays_connected:
  assumes "\<forall>i. send_result ev i \<noteq> ConnectionLost"
  shows "lr_server (send_loop ev cam i Connected cs) = Connected"
proof (induction cs arbitrary: i)
  case Nil
  show ?case by simp
next
  case (Cons c cs)
  show ?case
  proof (cases "procesar_contacto ev cam i Connected c")
    case (Raised e')
    then show ?thesis by simp
  next
    case Skipped
    with Cons.IH [of "Suc i"] show ?thesis by (simp add: Let_def)
  next
    case AlreadySent
    with Cons.IH [of "Suc i"] show ?thesis by (simp add: Let_def)
  next
    case (Tried b c' srv')
    from procesar_stays_connected [OF Tried] assms have "srv' = Connected" by simp
    with Tried Cons.IH [of "Suc i"] show ?thesis by (simp add: Let_def)
  qed
qed

lemma count_pendientes_total:
  assumes "\<forall>c\<in>set cs. \<exists>fl. read_fields c = Inr fl"
  shows "\<exists>n. count_pendientes cs = Inr n
           \<and> ((\<exists>c\<in>set cs. lower_strip c ''enviado'' ''no'' \<noteq> Inr ''si'') \<longrightarrow> 0 < n)"
  using assms
proof (induction cs)
  case Nil
  show ?case by simp
next
  case (Cons c cs)
  then obtain n where n: "count_pendientes cs = Inr n"
    "(\<exists>c\<in>set cs. lower_strip c ''enviado'' ''no'' \<noteq> Inr ''si'') \<longrightarrow> 0 < n"
    by auto
  from Cons.prems obtain fl where "read_fields c = Inr fl" by auto
  from read_fields_InrD [OF this] have "lower_strip c ''enviado'' ''no'' = Inr (f_enviado fl)"
    by simp
  with n show ?case by auto
qed

lemma loop_wrong_fields:
  assumes "lr_error (send_loop ev cam i srv cs) = None"
  shows "map wrong_fields (lr_contacts (send_loop ev cam i srv cs)) = map wrong_fields cs"
proof (rule nth_equalityI)
  show "length (map wrong_fields (lr_contacts (send_loop ev cam i srv cs)))
      = length (map wrong_fields cs)"
    using loop_contacts [OF assms] by simp
next
  fix j assume "j < length (map wrong_fields (lr_contacts (send_loop ev cam i srv cs)))"
  with loop_contacts [OF assms] have j: "j < length cs"
    and "lr_contacts (send_loop ev cam i srv cs) ! j = dict_set (cs ! j) ''enviado'' ''si''
       \<or> lr_contacts (send_loop ev cam i srv cs) ! j = cs ! j"
    by auto
  with loop_contacts [OF assms]
  show "map wrong_fields (lr_contacts (send_loop ev cam i srv cs)) ! j = map wrong_fields cs ! j"
    by (auto simp add: wrong_fields_dict_set)
qed

lemma length_takeWhile_map:
  "map g xs = map g ys \<Longrightarrow>
     length (takeWhile (\<lambda>x. P (g x)) xs) = length (takeWhile (\<lambda>y. P (g y)) ys)"
proof (induction xs arbitrary: ys)
  case Nil
  then show ?case by simp
next
  case (Cons x xs)
  then obtain y ys' where "ys = y # ys'" "g x = g y" "map g xs = map g ys'" by auto
  with Cons.IH [of ys'] show ?case by simp
qed

lemma length_takeWhile_less: "\<exists>x\<in>set xs. \<not> P x \<Longrightarrow> length (takeWhile P xs) < length xs"
  by (induction xs) auto

lemma not_isl_Inr: "\<not> isl x \<longleftrightarrow> (\<exists>y. x = Inr y)"
  by (cases x) simp_all

lemma length_dict_reader: "dict_reader f \<noteq> [] \<Longrightarrow> length (dict_reader f) < length f"
  by (cases f) (auto simp add: less_Suc_eq_le)

section \<open>Properties of the whole run\<close>

lemma run_log_cases:
  assumes "csv_file_path cam = Some path" and "files path = Some f"
  shows "run_log (enviar_correos ev (Some cam) files) = []
       \<or> (enviar_correos ev (Some cam) files = session ev cam path files (dict_reader f)
          \<and> connect_result ev = None
          \<and> run_log (enviar_correos ev (Some cam) files)
              = lr_log (send_loop ev cam 0 Connected (dict_reader f)))"
proof -
  from enviar_cases [where files = files and ev = ev, OF assms]
  consider "run_log (enviar_correos ev (Some cam) files) = []"
    | "enviar_correos ev (Some cam) files = session ev cam path files (dict_reader f)"
    by auto
  then show ?thesis
  proof cases
    case 1
    then show ?thesis by simp
  next
    case 2
    then show ?thesis
      by (auto simp add: session_def Let_def split: option.splits prod.splits)
  qed
qed




lemma blank_nombre_raises:
  assumes "dict_get c ''nombre'' [] = PStr s" and "\<forall>ch\<in>set s. is_space ch"
  shows "read_fields c = Inl IndexError"
proof -
  from assms(2) have "split s = []" by (simp add: split_Nil_iff)
  with assms(1) show ?thesis by (simp add: read_fields_def nombre_of_def)
qed

lemma run_reaches_session:
  assumes "csv_file_path cam = Some path" and "files path = Some f"
    and "truthy (template_es cam) \<or> truthy (template_en cam)"
    and "count_pendientes (dict_reader f) = Inr (Suc n)"
  shows "enviar_correos ev (Some cam) files = session ev cam path files (dict_reader f)"
proof -
  from assms(4) have "dict_reader f \<noteq> []" by auto
  with assms show ?thesis by (auto simp add: enviar_correos_def Let_def)
qed

lemma run_raise:
  assumes "csv_file_path cam = Some path" and "files path = Some f"
    and "j < length (dict_reader f)" and "read_fields (dict_reader f ! j) = Inl e"
  shows "run_files (enviar_correos ev (Some cam) files) = files"
    and "run_outcome (enviar_correos ev (Some cam) files) \<noteq> Completed"
    and "\<forall>a\<in>set (run_log (enviar_correos ev (Some cam) files)). at_index a < j"
proof -
  let ?r = "enviar_correos ev (Some cam) files"
  let ?L = "send_loop ev cam 0 Connected (dict_reader f)"
  from loop_raise [OF assms(3,4), of ev cam 0 Connected]
  have err: "lr_error ?L \<noteq> None" and before: "\<forall>a\<in>set (lr_log ?L). at_index a < j"
    by simp_all
  from enviar_cases [where files = files and ev = ev, OF assms(1,2)]
  consider "run_files ?r = files \<and> run_log ?r = [] \<and> run_outcome ?r \<noteq> Completed"
    | "?r = session ev cam path files (dict_reader f)"
    by auto
  then have "run_files ?r = files \<and> run_outcome ?r \<noteq> Completed"
  proof cases
    case 1
    then show ?thesis by simp
  next
    case 2
    with session_error(1,2) [of ev cam "dict_reader f" path files] err show ?thesis by simp
  qed
  then show "run_files ?r = files" and "run_outcome ?r \<noteq> Completed" by simp_all
  show "\<forall>a\<in>set (run_log ?r). at_index a < j"
    using run_log_cases [where files = files and ev = ev, OF assms(1,2)] before by auto
qed

lemma session_loop_error:
  assumes "connect_result ev = None" and "lr_error (send_loop ev cam 0 Connected cs) = Some e"
  shows "run_outcome (session ev cam path files cs) = Unexpected e"
  using assms by (simp add: session_def Let_def)

lemma run_value_error:
  assumes "csv_file_path cam = Some path" and "files path = Some f"
    and "run_outcome (enviar_correos ev (Some cam) files) = Unexpected ValueError"
  shows "\<exists>rows. run_files (enviar_correos ev (Some cam) files) path = Some (fieldnames # rows)
           \<and> length rows = length (takeWhile (\<lambda>c. wrong_fields c = []) (dict_reader f))
           \<and> length rows < length (dict_reader f)
           \<and> fieldnames # rows \<noteq> f"
proof -
  let ?cs = "dict_reader f"
  let ?L = "send_loop ev cam 0 Connected ?cs"
  let ?ok = "\<lambda>c. wrong_fields c = []"
  from enviar_cases [where files = files and ev = ev, OF assms(1,2)] assms(3)
  have run: "enviar_correos ev (Some cam) files = session ev cam path files ?cs" by auto
  with assms(3) have v: "run_outcome (session ev cam path files ?cs) = Unexpected ValueError"
    by simp
  note s = session_ValueError [OF v]
  let ?rows = "map row_of (takeWhile ?ok (lr_contacts ?L))"
  have wf: "map wrong_fields (lr_contacts ?L) = map wrong_fields ?cs"
    by (rule loop_wrong_fields [OF s(1)])
  have len: "length (takeWhile ?ok (lr_contacts ?L)) = length (takeWhile ?ok ?cs)"
    by (rule length_takeWhile_map [where g = wrong_fields and P = "\<lambda>w. w = []", OF wf])
  from s(3) have "length (takeWhile ?ok (lr_contacts ?L)) < length (lr_contacts ?L)"
    by (simp add: length_takeWhile_less)
  moreover have "length (lr_contacts ?L) = length ?cs"
    using loop_contacts [OF s(1)] by simp
  ultimately have short: "length ?rows < length ?cs" by simp
  then have "?cs \<noteq> []" by auto
  from length_dict_reader [OF this] short have neq: "length (fieldnames # ?rows) \<noteq> length f"
    by simp
  have "fieldnames # ?rows \<noteq> f"
  proof
    assume "fieldnames # ?rows = f"
    then have "length (fieldnames # ?rows) = length f" by (rule arg_cong)
    with neq show False by contradiction
  qed
  moreover have "run_files (enviar_correos ev (Some cam) files) path = Some (fieldnames # ?rows)"
    using run s(2) by simp
  ultimately show ?thesis using len short by auto
qed

lemma try_send_is_Tried:
  "\<exists>a c' srv'. try_send ev cam i srv c nombre email t l subj = Tried a c' srv'"
  by (rule try_send_Tried(1) [OF refl])

lemma procesar_pending:
  assumes "pending c"
  shows "\<exists>a c' srv'. procesar_contacto ev cam i srv c = Tried a c' srv' \<and> at_index a = i"
proof -
  from assms obtain f where f: "read_fields c = Inr f"
    and ok: "f_nombre f \<noteq> []" "f_email f \<noteq> []" "f_device f \<noteq> ''android''"
      "f_enviado f \<noteq> ''si''"
    by (auto simp add: pending_def split: sum.splits)
  have "\<exists>a c' srv'. procesar_contacto ev cam i srv c = Tried a c' srv'"
    by (simp add: procesar_contacto_def Let_def f ok try_send_is_Tried)
  then obtain a c' srv' where p: "procesar_contacto ev cam i srv c = Tried a c' srv'"
    by blast
  from procesar_Tried(1) [OF p] p show ?thesis by blast
qed

lemma loop_attempts_pending:
  assumes "j < length cs" and "\<forall>k<j. \<not> isl (read_fields (cs ! k))" and "pending (cs ! j)"
  shows "\<exists>a\<in>set (lr_log (send_loop ev cam i srv cs)). at_index a = i + j"
  using assms
proof (induction cs arbitrary: i srv j)
  case Nil
  then show ?case by simp
next
  case (Cons c cs)
  show ?case
  proof (cases j)
    case 0
    with Cons.prems(3) have "pending c" by simp
    from procesar_pending [OF this, of ev cam i srv]
    obtain a c' srv' where "procesar_contacto ev cam i srv c = Tried a c' srv'" "at_index a = i"
      by blast
    with 0 show ?thesis by (simp add: Let_def)
  next
    case (Suc j')
    with Cons.prems have j': "j' < length cs"
      and before: "\<forall>k<j'. \<not> isl (read_fields (cs ! k))"
      and pend: "pending (cs ! j')"
      and first: "\<not> isl (read_fields c)"
      by auto
    show ?thesis
    proof (cases "procesar_contacto ev cam i srv c")
      case (Raised e)
      from procesar_Raised [OF Raised] first show ?thesis by simp
    next
      case Skipped
      with Cons.IH [OF j' before pend, of "Suc i" srv] Suc show ?thesis by (simp add: Let_def)
    next
      case AlreadySent
      with Cons.IH [OF j' before pend, of "Suc i" srv] Suc show ?thesis by (simp add: Let_def)
    next
      case (Tried b c' srv')
      with Cons.IH [OF j' before pend, of "Suc i" srv'] Suc show ?thesis by (simp add: Let_def)
    qed
  qed
qed



lemma session_quit_raises:
  assumes "connect_result ev = None"
    and "lr_error (send_loop ev cam 0 Connected cs) = None"
    and "lr_server (send_loop ev cam 0 Connected cs) = Disconnected"
  shows "run_outcome (session ev cam path files cs) = Unexpected SMTPServerDisconnected"
  using assms by (simp add: session_def Let_def)

section \<open>Properties of the image rewriting\<close>

lemma repl_Nil [simp]: "repl old new [] = []"
  by (simp add: repl.simps)

lemma repl_match: "old \<noteq> [] \<Longrightarrow> prefix old s \<Longrightarrow> repl old new s = new @ repl old new (drop (length old) s)"
  by (subst repl.simps) (auto simp add: prefix_def)

lemma repl_nomatch: "old \<noteq> [] \<Longrightarrow> \<not> prefix old (c # s) \<Longrightarrow> repl old new (c # s) = c # repl old new s"
  by (subst repl.simps) simp

lemma scan_Nil [simp]: "rewrite_scan fs [] = []"
  by (simp add: rewrite_scan.simps)

lemma img_src_not_Nil [simp]: "img_src f \<noteq> []"
  by (simp add: img_src_def)

lemma scan_match:
  assumes "find (\<lambda>f. prefix (img_src f) s) fs = Some f"
  shows "rewrite_scan fs s = cid_src f @ rewrite_scan fs (drop (length (img_src f)) s)"
proof -
  from assms have "prefix (img_src f) s" by (auto simp add: find_Some_iff)
  then have "s \<noteq> []" by auto
  with assms show ?thesis by (subst rewrite_scan.simps) simp
qed

lemma scan_nomatch:
  "find (\<lambda>f. prefix (img_src f) (c # s)) fs = None \<Longrightarrow>
     rewrite_scan fs (c # s) = c # rewrite_scan fs s"
  by (subst rewrite_scan.simps) simp

lemma scan_no_names [simp]: "rewrite_scan [] s = s"
  by (induction s) (simp_all add: scan_nomatch)

lemma replace_eq_scan: "replace s (img_src f) (cid_src f) = rewrite_scan [f] s"
proof -
  have "repl (img_src f) (cid_src f) s = rewrite_scan [f] s"
  proof (induction s rule: length_induct)
    case (1 s)
    show ?case
    proof (cases s)
      case Nil
      then show ?thesis by simp
    next
      case (Cons c s')
      show ?thesis
      proof (cases "prefix (img_src f) s")
        case True
        then have "length (drop (length (img_src f)) s) < length s"
          using Cons by (simp add: img_src_def)
        with 1 have "repl (img_src f) (cid_src f) (drop (length (img_src f)) s)
            = rewrite_scan [f] (drop (length (img_src f)) s)" by blast
        with True show ?thesis
          by (simp add: repl_match scan_match)
      next
        case False
        with 1 Cons show ?thesis
          by (simp add: repl_nomatch scan_nomatch)
      qed
    qed
  qed
  then show ?thesis by (simp add: replace_def)
qed

lemma cid_of_map: "cid_of f = map (\<lambda>c. if c = CHR ''.'' then CHR ''_'' else c) f"
proof -
  have "repl ''.'' ''_'' f = map (\<lambda>c. if c = CHR ''.'' then CHR ''_'' else c) f"
    by (induction f) (simp_all add: repl_match repl_nomatch)
  then show ?thesis by (simp add: cid_of_def replace_def)
qed

lemma scan_skip:
  assumes "\<And>x0 x'. x = x0 @ x' \<Longrightarrow> x' \<noteq> [] \<Longrightarrow> find (\<lambda>g. prefix (img_src g) (x' @ u)) fs = None"
  shows "rewrite_scan fs (x @ u) = x @ rewrite_scan fs u"
  using assms
proof (induction x)
  case Nil
  show ?case by simp
next
  case (Cons c x)
  have here: "find (\<lambda>g. prefix (img_src g) ((c # x) @ u)) fs = None"
    by (rule Cons.prems [of "[]"]) simp_all
  have rest: "rewrite_scan fs (x @ u) = x @ rewrite_scan fs u"
  proof (rule Cons.IH)
    fix x0 x' assume "x = x0 @ x'" and "x' \<noteq> []"
    then show "find (\<lambda>g. prefix (img_src g) (x' @ u)) fs = None"
      using Cons.prems [of "c # x0" x'] by simp
  qed
  from here rest show ?case by (simp add: scan_nomatch)
qed

lemma upto_quote_prefix:
  assumes "prefix (m @ CHR 0x22 # r) z" and "CHR 0x22 \<notin> set m"
  shows "upto_quote z = m"
proof -
  from assms(1) obtain z' where "z = m @ CHR 0x22 # r @ z'" by (auto simp add: prefix_def)
  with assms(2) show ?thesis by (auto simp add: upto_quote_def takeWhile_append2 takeWhile_tail)
qed


lemma upto_quote_snoc:
  "CHR 0x22 \<notin> set m \<Longrightarrow> upto_quote (m @ CHR 0x22 # r) = m"
  by (rule upto_quote_prefix [where r = r]) simp_all

text \<open>
  A word \<open>a"W"\<close> with \<open>a\<close> and \<open>W\<close> free of quotes and \<open>W\<close> not ending in \<open>a\<close>: none of
  its proper non-empty suffixes reads \<open>a\<close> up to its first quote.
\<close>

lemma proper_suffix_upto_quote:
  assumes "x0 @ x' = a @ CHR 0x22 # W @ [CHR 0x22]"
    and "x0 \<noteq> []" and "x' \<noteq> []"
    and "CHR 0x22 \<notin> set a" and "CHR 0x22 \<notin> set W" and "\<not> suffix a W"
  shows "\<exists>m r. x' = m @ CHR 0x22 # r \<and> CHR 0x22 \<notin> set m \<and> m \<noteq> a"
proof -
  from assms(1) consider m where "x' = m @ CHR 0x22 # W @ [CHR 0x22]" "a = x0 @ m"
    | m where "m @ x' = CHR 0x22 # W @ [CHR 0x22]" "x0 = a @ m"
    by (auto simp add: append_eq_append_conv2)
  then show ?thesis
  proof cases
    case 1
    from 1(2) assms(2) have "m \<noteq> a" by auto
    moreover from 1(2) assms(4) have "CHR 0x22 \<notin> set m" by auto
    ultimately show ?thesis using 1(1) by blast
  next
    case 2
    show ?thesis
    proof (cases m)
      case Nil
      with 2(1) have "x' = [] @ CHR 0x22 # W @ [CHR 0x22]" by simp
      moreover from 2(2) Nil assms(2) have "[] \<noteq> a" by auto
      ultimately show ?thesis by (intro exI [of _ "[]"] exI [of _ "W @ [CHR 0x22]"]) simp
    next
      case (Cons q m')
      with 2(1) have w: "m' @ x' = W @ [CHR 0x22]" by simp
      from assms(3) obtain x'' l where x': "x' = x'' @ [l]"
        by (metis rev_exhaust)
      with w have "(m' @ x'') @ [l] = W @ [CHR 0x22]" by simp
      then have W: "W = m' @ x''" and l: "l = CHR 0x22" by simp_all
      from W assms(5) have "CHR 0x22 \<notin> set x''" by auto
      moreover from W assms(6) have "x'' \<noteq> a" by (auto simp add: suffix_def)
      ultimately show ?thesis using x' l by (intro exI [of _ x''] exI [of _ "[]"]) simp
    qed
  qed
qed

lemma img_src_shape: "img_src f = ''src='' @ CHR 0x22 # (''images/'' @ f) @ [CHR 0x22]"
  by (simp add: img_src_def)

lemma cid_src_shape: "cid_src f = ''src='' @ CHR 0x22 # (''cid:'' @ cid_of f) @ [CHR 0x22]"
  by (simp add: cid_src_def)

lemma upto_quote_img_src: "prefix (img_src g) y \<Longrightarrow> upto_quote y = ''src=''"
  by (rule upto_quote_prefix [where r = "(''images/'' @ g) @ [CHR 0x22]"])
    (simp_all add: img_src_def)

lemma upto_quote_cid_src: "upto_quote (cid_src f @ u) = ''src=''"
  by (rule upto_quote_prefix [where r = "(''cid:'' @ cid_of f) @ [CHR 0x22]"])
    (simp_all add: cid_src_def)

lemma no_img_src_in_proper_suffix:
  assumes "x0 @ x' = ''src='' @ CHR 0x22 # W @ [CHR 0x22]"
    and "x0 \<noteq> []" and "x' \<noteq> []" and "plain W"
  shows "\<not> prefix (img_src g) (x' @ u)"
proof
  assume p: "prefix (img_src g) (x' @ u)"
  from proper_suffix_upto_quote [OF assms(1,2,3)] assms(4)
  obtain m r where x': "x' = m @ CHR 0x22 # r" and m: "CHR 0x22 \<notin> set m" "m \<noteq> ''src=''"
    by (auto simp add: plain_def)
  from x' m(1) have "upto_quote (x' @ u) = m"
    using upto_quote_snoc [of m "r @ u"] by simp
  with upto_quote_img_src [OF p] m(2) show False by simp
qed

lemma proper_suffix_not_in_cid_src:
  assumes "x0 @ x' = ''src='' @ CHR 0x22 # W @ [CHR 0x22]"
    and "x0 \<noteq> []" and "x' \<noteq> []" and "plain W"
  shows "\<not> prefix x' (cid_src f @ u)"
proof
  assume p: "prefix x' (cid_src f @ u)"
  from proper_suffix_upto_quote [OF assms(1,2,3)] assms(4)
  obtain m r where x': "x' = m @ CHR 0x22 # r" and m: "CHR 0x22 \<notin> set m" "m \<noteq> ''src=''"
    by (auto simp add: plain_def)
  from p x' have "prefix (m @ CHR 0x22 # r) (cid_src f @ u)" by simp
  from upto_quote_prefix [OF this m(1)] upto_quote_cid_src [of f u] m(2)
  show False by simp
qed

lemma suffix_src_last: "suffix ''src='' w \<Longrightarrow> last w = CHR ''=''"
  by (auto simp add: suffix_def)

lemma image_name_last:
  assumes "is_image_name f"
  shows "f \<noteq> [] \<and> last f \<noteq> CHR ''='' \<and> last f \<noteq> CHR ''.''"
proof -
  from assms obtain ext where ext: "ext \<in> set [''.png'', ''.jpg'', ''.jpeg'', ''.gif'']"
    and suf: "suffix ext (lower f)"
    by (auto simp add: is_image_name_def list_ex_iff)
  from suf obtain ys where l: "lower f = ys @ ext" by (auto simp add: suffix_def)
  from ext have ne_ext: "ext \<noteq> []" and e: "last ext = CHR ''g'' \<or> last ext = CHR ''f''" by auto
  with l have "lower f \<noteq> []" and ll: "last (lower f) = last ext" by simp_all
  then have ne: "f \<noteq> []" by (simp add: lower_def)
  with ll have lc: "lower_char (last f) = last ext" by (simp add: lower_def last_map)
  have "last f \<noteq> CHR ''=''"
  proof
    assume "last f = CHR ''=''"
    then have "lower_char (last f) = CHR ''=''" by (simp add: lower_char_def)
    with lc e show False by auto
  qed
  moreover have "last f \<noteq> CHR ''.''"
  proof
    assume "last f = CHR ''.''"
    then have "lower_char (last f) = CHR ''.''" by (simp add: lower_char_def)
    with lc e show False by auto
  qed
  ultimately show ?thesis using ne by simp
qed

lemma plain_images:
  assumes "CHR 0x22 \<notin> set f" and "is_image_name f"
  shows "plain (''images/'' @ f)"
proof -
  from image_name_last [OF assms(2)] have "f \<noteq> []" "last f \<noteq> CHR ''=''" by simp_all
  then have "last (''images/'' @ f) \<noteq> CHR ''=''" by simp
  with suffix_src_last have "\<not> suffix ''src='' (''images/'' @ f)" by blast
  with assms(1) show ?thesis by (simp add: plain_def)
qed

lemma plain_cid:
  assumes "CHR 0x22 \<notin> set f" and "is_image_name f"
  shows "plain (''cid:'' @ cid_of f)"
proof -
  from image_name_last [OF assms(2)] have "f \<noteq> []" "last f \<noteq> CHR ''=''" by simp_all
  then have "cid_of f \<noteq> []" and "last (cid_of f) \<noteq> CHR ''=''"
    by (simp_all add: cid_of_map last_map)
  then have "last (''cid:'' @ cid_of f) \<noteq> CHR ''=''" by simp
  with suffix_src_last have "\<not> suffix ''src='' (''cid:'' @ cid_of f)" by blast
  moreover from assms(1) have "CHR 0x22 \<notin> set (cid_of f)" by (auto simp add: cid_of_map)
  ultimately show ?thesis by (simp add: plain_def)
qed

lemma img_src_unique:
  assumes "prefix (img_src g) y" and "prefix (img_src h) y"
    and "CHR 0x22 \<notin> set g" and "CHR 0x22 \<notin> set h"
  shows "g = h"
proof -
  from assms(1) obtain r1 where "y = ''src=\"images/'' @ g @ CHR 0x22 # r1"
    by (auto simp add: prefix_def img_src_def)
  moreover from assms(2) obtain r2 where "y = ''src=\"images/'' @ h @ CHR 0x22 # r2"
    by (auto simp add: prefix_def img_src_def)
  ultimately have "g @ CHR 0x22 # r1 = h @ CHR 0x22 # r2" by simp
  then have "upto_quote (g @ CHR 0x22 # r1) = upto_quote (h @ CHR 0x22 # r2)" by simp
  with assms(3,4) show ?thesis by (simp add: upto_quote_snoc)
qed

lemma img_src_not_cid_src: "\<not> prefix (img_src g) (cid_src f @ u)"
  by (simp add: img_src_def cid_src_def)

lemma no_img_src_in_cid_src:
  assumes "CHR 0x22 \<notin> set f" and "is_image_name f"
    and "cid_src f = x0 @ x'" and "x' \<noteq> []"
  shows "\<not> prefix (img_src g) (x' @ u)"
proof (cases "x0 = []")
  case True
  with assms(3) have "x' = cid_src f" by simp
  with img_src_not_cid_src [of g f u] show ?thesis by simp
next
  case False
  from assms(3) have "x0 @ x' = ''src='' @ CHR 0x22 # (''cid:'' @ cid_of f) @ [CHR 0x22]"
    by (simp add: cid_src_shape)
  from no_img_src_in_proper_suffix [OF this False assms(4) plain_cid [OF assms(1,2)]]
  show ?thesis .
qed

lemma scan_cid_src:
  assumes "CHR 0x22 \<notin> set f" and "is_image_name f"
  shows "rewrite_scan fs (cid_src f @ u) = cid_src f @ rewrite_scan fs u"
proof (rule scan_skip)
  fix x0 x' assume "cid_src f = x0 @ x'" and "x' \<noteq> []"
  from no_img_src_in_cid_src [OF assms this]
  show "find (\<lambda>g. prefix (img_src g) (x' @ u)) fs = None"
    by (simp add: find_None_iff)
qed

lemma scan_single_match:
  "prefix (img_src f) s \<Longrightarrow>
     rewrite_scan [f] s = cid_src f @ rewrite_scan [f] (drop (length (img_src f)) s)"
  by (rule scan_match) simp

lemma scan_single_nomatch:
  "\<not> prefix (img_src f) (c # s) \<Longrightarrow> rewrite_scan [f] (c # s) = c # rewrite_scan [f] s"
  by (rule scan_nomatch) simp

text \<open>
  A word none of whose non-empty suffixes starts a \<open>cid_src f\<close>: where it is a prefix of
  the rewritten text, it was a prefix of the text.
\<close>

lemma prefix_scan_single:
  assumes "\<And>x0 x' u. x = x0 @ x' \<Longrightarrow> x' \<noteq> [] \<Longrightarrow> \<not> prefix x' (cid_src f @ u)"
    and "prefix x (rewrite_scan [f] s)"
  shows "prefix x s"
  using assms
proof (induction s arbitrary: x)
  case Nil
  then show ?case by simp
next
  case (Cons c s)
  show ?case
  proof (cases x)
    case Nil
    then show ?thesis by simp
  next
    case (Cons d x1)
    show ?thesis
    proof (cases "prefix (img_src f) (c # s)")
      case True
      from scan_single_match [OF True] Cons.prems(2)
      have "prefix x (cid_src f @ rewrite_scan [f] (drop (length (img_src f)) (c # s)))"
        by simp
      moreover have "\<not> prefix x (cid_src f @ rewrite_scan [f] (drop (length (img_src f)) (c # s)))"
        by (rule Cons.prems(1) [of "[]"]) (simp_all add: \<open>x = d # x1\<close>)
      ultimately show ?thesis by contradiction
    next
      case False
      from scan_single_nomatch [OF False] Cons.prems(2) \<open>x = d # x1\<close>
      have d: "d = c" and p: "prefix x1 (rewrite_scan [f] s)" by simp_all
      have "prefix x1 s"
      proof (rule Cons.IH [OF _ p])
        fix x0 x' u assume "x1 = x0 @ x'" and "x' \<noteq> []"
        then show "\<not> prefix x' (cid_src f @ u)"
          using Cons.prems(1) [of "d # x0" x' u] \<open>x = d # x1\<close> by simp
      qed
      with d \<open>x = d # x1\<close> show ?thesis by simp
    qed
  qed
qed

lemma prefix_img_src_scan_single:
  assumes "CHR 0x22 \<notin> set g" and "is_image_name g"
    and "prefix (img_src g) (rewrite_scan [f] s)"
  shows "prefix (img_src g) s"
proof (rule prefix_scan_single [OF _ assms(3)])
  fix x0 x' u assume x: "img_src g = x0 @ x'" and ne: "x' \<noteq> []"
  show "\<not> prefix x' (cid_src f @ u)"
  proof (cases "x0 = []")
    case True
    with x have "x' = img_src g" by simp
    with img_src_not_cid_src [of g f u] show ?thesis by simp
  next
    case False
    from x have "x0 @ x' = ''src='' @ CHR 0x22 # (''images/'' @ g) @ [CHR 0x22]"
      by (simp add: img_src_shape)
    from proper_suffix_not_in_cid_src [OF this False ne plain_images [OF assms(1,2)]]
    show ?thesis .
  qed
qed

lemma scan_single_img_src:
  assumes "CHR 0x22 \<notin> set g" and "is_image_name g"
    and "\<not> prefix (img_src f) (img_src g @ t)"
  shows "rewrite_scan [f] (img_src g @ t) = img_src g @ rewrite_scan [f] t"
proof (rule scan_skip)
  fix x0 x' assume x: "img_src g = x0 @ x'" and ne: "x' \<noteq> []"
  have "\<not> prefix (img_src f) (x' @ t)"
  proof (cases "x0 = []")
    case True
    with x assms(3) show ?thesis by simp
  next
    case False
    from x have "x0 @ x' = ''src='' @ CHR 0x22 # (''images/'' @ g) @ [CHR 0x22]"
      by (simp add: img_src_shape)
    from no_img_src_in_proper_suffix [OF this False ne plain_images [OF assms(1,2)]]
    show ?thesis .
  qed
  then show "find (\<lambda>g. prefix (img_src g) (x' @ t)) [f] = None" by simp
qed

lemma find_unique:
  assumes "g \<in> set fs" and "P g" and "\<forall>h\<in>set fs. P h \<longrightarrow> h = g"
  shows "find P fs = Some g"
  using assms
proof (induction fs)
  case Nil
  then show ?case by simp
next
  case (Cons a fs)
  show ?case
  proof (cases "P a")
    case True
    with Cons.prems(3) have "a = g" by simp
    with True show ?thesis by simp
  next
    case False
    with Cons.prems(1,2) have "g \<in> set fs" by auto
    moreover from Cons.prems(3) have "\<forall>h\<in>set fs. P h \<longrightarrow> h = g" by simp
    ultimately have "find P fs = Some g" using Cons.IH Cons.prems(2) by blast
    with False show ?thesis by simp
  qed
qed

lemma scan_after_single_match:
  assumes f: "CHR 0x22 \<notin> set f" "is_image_name f"
    and m: "prefix (img_src f) s"
    and ih: "rewrite_scan fs (rewrite_scan [f] (drop (length (img_src f)) s))
           = rewrite_scan (f # fs) (drop (length (img_src f)) s)"
  shows "rewrite_scan fs (rewrite_scan [f] s) = rewrite_scan (f # fs) s"
proof -
  let ?t = "drop (length (img_src f)) s"
  from m have "find (\<lambda>g. prefix (img_src g) s) (f # fs) = Some f" by simp
  then have r: "rewrite_scan (f # fs) s = cid_src f @ rewrite_scan (f # fs) ?t"
    by (rule scan_match)
  have "rewrite_scan [f] s = cid_src f @ rewrite_scan [f] ?t"
    by (rule scan_single_match [OF m])
  then have "rewrite_scan fs (rewrite_scan [f] s) = rewrite_scan fs (cid_src f @ rewrite_scan [f] ?t)"
    by (rule arg_cong)
  also have "\<dots> = cid_src f @ rewrite_scan fs (rewrite_scan [f] ?t)"
    by (rule scan_cid_src [OF f])
  also have "\<dots> = cid_src f @ rewrite_scan (f # fs) ?t"
    by (simp only: ih)
  also have "\<dots> = rewrite_scan (f # fs) s"
    by (rule r [symmetric])
  finally show ?thesis .
qed

lemma scan_after_single_other:
  assumes fs: "\<forall>g\<in>set fs. CHR 0x22 \<notin> set g \<and> is_image_name g"
    and nf: "\<not> prefix (img_src f) (img_src g @ t)"
    and fg: "find (\<lambda>h. prefix (img_src h) (img_src g @ t)) fs = Some g"
    and ih: "rewrite_scan fs (rewrite_scan [f] t) = rewrite_scan (f # fs) t"
  shows "rewrite_scan fs (rewrite_scan [f] (img_src g @ t)) = rewrite_scan (f # fs) (img_src g @ t)"
proof -
  from fg have g: "g \<in> set fs" by (auto simp add: find_Some_iff)
  with fs have vg: "CHR 0x22 \<notin> set g" "is_image_name g" by simp_all
  from nf fg have "find (\<lambda>h. prefix (img_src h) (img_src g @ t)) (f # fs) = Some g" by simp
  from scan_match [OF this]
  have right: "rewrite_scan (f # fs) (img_src g @ t) = cid_src g @ rewrite_scan (f # fs) t"
    by simp
  have single: "rewrite_scan [f] (img_src g @ t) = img_src g @ rewrite_scan [f] t"
    by (rule scan_single_img_src [OF vg nf])
  have "find (\<lambda>h. prefix (img_src h) (img_src g @ rewrite_scan [f] t)) fs = Some g"
  proof (rule find_unique [OF g])
    show "prefix (img_src g) (img_src g @ rewrite_scan [f] t)" by simp
  next
    show "\<forall>h\<in>set fs. prefix (img_src h) (img_src g @ rewrite_scan [f] t) \<longrightarrow> h = g"
    proof (intro ballI impI)
      fix h assume h: "h \<in> set fs"
        and ph: "prefix (img_src h) (img_src g @ rewrite_scan [f] t)"
      have pg: "prefix (img_src g) (img_src g @ rewrite_scan [f] t)" by simp
      from fs h have "CHR 0x22 \<notin> set h" by simp
      from img_src_unique [OF ph pg this vg(1)] show "h = g" .
    qed
  qed
  from scan_match [OF this]
  have "rewrite_scan fs (img_src g @ rewrite_scan [f] t)
      = cid_src g @ rewrite_scan fs (rewrite_scan [f] t)" by simp
  with single have "rewrite_scan fs (rewrite_scan [f] (img_src g @ t))
      = cid_src g @ rewrite_scan fs (rewrite_scan [f] t)" by simp
  also have "\<dots> = cid_src g @ rewrite_scan (f # fs) t" by (simp only: ih)
  also have "\<dots> = rewrite_scan (f # fs) (img_src g @ t)" by (rule right [symmetric])
  finally show ?thesis .
qed

lemma scan_after_single_none:
  assumes fs: "\<forall>g\<in>set fs. CHR 0x22 \<notin> set g \<and> is_image_name g"
    and nf: "\<not> prefix (img_src f) (c # s)"
    and none: "find (\<lambda>h. prefix (img_src h) (c # s)) fs = None"
    and ih: "rewrite_scan fs (rewrite_scan [f] s) = rewrite_scan (f # fs) s"
  shows "rewrite_scan fs (rewrite_scan [f] (c # s)) = rewrite_scan (f # fs) (c # s)"
proof -
  from nf none have "find (\<lambda>h. prefix (img_src h) (c # s)) (f # fs) = None" by simp
  then have right: "rewrite_scan (f # fs) (c # s) = c # rewrite_scan (f # fs) s"
    by (rule scan_nomatch)
  have single: "rewrite_scan [f] (c # s) = c # rewrite_scan [f] s"
    by (rule scan_single_nomatch [OF nf])
  have "find (\<lambda>h. prefix (img_src h) (c # rewrite_scan [f] s)) fs = None"
  proof -
    have "\<not> prefix (img_src h) (c # rewrite_scan [f] s)" if h: "h \<in> set fs" for h
    proof
      assume "prefix (img_src h) (c # rewrite_scan [f] s)"
      with single have p: "prefix (img_src h) (rewrite_scan [f] (c # s))" by simp
      from fs h have "CHR 0x22 \<notin> set h" "is_image_name h" by simp_all
      from prefix_img_src_scan_single [OF this p] have "prefix (img_src h) (c # s)" .
      with none h show False by (simp add: find_None_iff)
    qed
    then show ?thesis by (simp add: find_None_iff)
  qed
  then have "rewrite_scan fs (c # rewrite_scan [f] s) = c # rewrite_scan fs (rewrite_scan [f] s)"
    by (rule scan_nomatch)
  with single have "rewrite_scan fs (rewrite_scan [f] (c # s))
      = c # rewrite_scan fs (rewrite_scan [f] s)" by simp
  also have "\<dots> = c # rewrite_scan (f # fs) s" by (simp only: ih)
  also have "\<dots> = rewrite_scan (f # fs) (c # s)" by (rule right [symmetric])
  finally show ?thesis .
qed

text \<open>One more name in front of the list is one more pass of \<open>replace\<close> before the scan.\<close>

lemma scan_after_single:
  assumes f: "CHR 0x22 \<notin> set f" "is_image_name f"
    and fs: "\<forall>g\<in>set fs. CHR 0x22 \<notin> set g \<and> is_image_name g"
  shows "rewrite_scan fs (rewrite_scan [f] s) = rewrite_scan (f # fs) s"
proof (induction s rule: length_induct)
  case (1 s)
  then have ih: "\<And>t. length t < length s \<Longrightarrow>
      rewrite_scan fs (rewrite_scan [f] t) = rewrite_scan (f # fs) t"
    by blast
  show ?case
  proof (cases s)
    case Nil
    then show ?thesis by simp
  next
    case (Cons c s')
    show ?thesis
    proof (cases "prefix (img_src f) s")
      case True
      from True Cons have "length (drop (length (img_src f)) s) < length s" by simp
      from scan_after_single_match [OF f True ih [OF this]] show ?thesis .
    next
      case False
      show ?thesis
      proof (cases "find (\<lambda>h. prefix (img_src h) s) fs")
        case None
        from Cons have "length s' < length s" by simp
        from scan_after_single_none [OF fs False [unfolded Cons] None [unfolded Cons] ih [OF this]]
        show ?thesis unfolding Cons .
      next
        case (Some g)
        then have "prefix (img_src g) s" by (auto simp add: find_Some_iff)
        then obtain t where s: "s = img_src g @ t" by (auto simp add: prefix_def)
        then have "length t < length s" by simp
        from scan_after_single_other [OF fs False [unfolded s] Some [unfolded s] ih [OF this]]
        show ?thesis unfolding s .
      qed
    qed
  qed
qed


section \<open>The claims\<close>

text \<open>
  C1. After a run that completes, the rewritten contact-list file has the header and one
  record per loaded contact, in order. The record of a contact whose send was attempted
  and succeeded has \<open>si\<close> in the \<open>enviado\<close> column (the fourth) and is otherwise the
  record of the contact as loaded; the record of a contact that was never attempted or
  whose send failed is the record of the contact as loaded, so its \<open>enviado\<close> value is
  the prior one.
\<close>

theorem completed_run:
  assumes "csv_file_path cam = Some path" and "files path = Some f"
    and "run_outcome (enviar_correos ev (Some cam) files) = Completed"
  shows "\<exists>rows. run_files (enviar_correos ev (Some cam) files) path = Some (fieldnames # rows)
           \<and> length rows = length (dict_reader f)
           \<and> (\<forall>j<length (dict_reader f).
                 if \<exists>a\<in>set (run_log (enviar_correos ev (Some cam) files)). at_index a = j \<and> at_sent a
                 then rows ! j ! 3 = ''si'' \<and> rows ! j = (row_of (dict_reader f ! j))[3 := ''si'']
                 else rows ! j ! 3 = cell (map_of (dict_reader f ! j) (Some ''enviado''))
                    \<and> rows ! j = row_of (dict_reader f ! j))"
proof -
  let ?cs = "dict_reader f"
  let ?L = "send_loop ev cam 0 Connected ?cs"
  from enviar_cases [where files = files and ev = ev, OF assms(1,2)] assms(3)
  have run: "enviar_correos ev (Some cam) files = session ev cam path files ?cs" by auto
  with assms(3) have fin: "run_outcome (session ev cam path files ?cs) = Completed" by simp
  note s = session_Completed [OF fin]
  from loop_contacts [OF s(1)]
  have len: "length (lr_contacts ?L) = length ?cs"
    and each: "\<And>j. j < length ?cs \<Longrightarrow> lr_contacts ?L ! j =
        (if \<exists>a\<in>set (lr_log ?L). at_index a = j \<and> at_sent a
         then dict_set (?cs ! j) ''enviado'' ''si'' else ?cs ! j)"
    by simp_all
  let ?rows = "map row_of (lr_contacts ?L)"
  have "run_files (enviar_correos ev (Some cam) files) path = Some (fieldnames # ?rows)"
    using run s(3) by simp
  moreover have "length ?rows = length ?cs" using len by simp
  moreover have "\<forall>j<length ?cs.
      if \<exists>a\<in>set (run_log (enviar_correos ev (Some cam) files)). at_index a = j \<and> at_sent a
      then ?rows ! j ! 3 = ''si'' \<and> ?rows ! j = (row_of (?cs ! j))[3 := ''si'']
      else ?rows ! j ! 3 = cell (map_of (?cs ! j) (Some ''enviado''))
         \<and> ?rows ! j = row_of (?cs ! j)"
  proof (intro allI impI)
    fix j assume j: "j < length ?cs"
    have log: "run_log (enviar_correos ev (Some cam) files) = lr_log ?L"
      using run s(2) by simp
    show "if \<exists>a\<in>set (run_log (enviar_correos ev (Some cam) files)). at_index a = j \<and> at_sent a
      then ?rows ! j ! 3 = ''si'' \<and> ?rows ! j = (row_of (?cs ! j))[3 := ''si'']
      else ?rows ! j ! 3 = cell (map_of (?cs ! j) (Some ''enviado''))
         \<and> ?rows ! j = row_of (?cs ! j)"
      using each [OF j] j len
      by (auto simp add: log row_of_dict_set row_of_enviado length_row_of)
  qed
  ultimately show ?thesis by blast
qed

theorem completed_run_witness:
  "csv_file_path ex_campaign = Some ''contactos.csv''
   \<and> ex_files ex_file ''contactos.csv'' = Some ex_file
   \<and> run_outcome (enviar_correos ex_env_refused (Some ex_campaign) (ex_files ex_file)) = Completed
   \<and> (\<exists>rows. run_files (enviar_correos ex_env_refused (Some ex_campaign) (ex_files ex_file))
                 ''contactos.csv'' = Some (fieldnames # rows)
           \<and> length rows = length (dict_reader ex_file)
           \<and> (\<forall>j<length (dict_reader ex_file).
                 if \<exists>a\<in>set (run_log (enviar_correos ex_env_refused (Some ex_campaign)
                                 (ex_files ex_file))). at_index a = j \<and> at_sent a
                 then rows ! j ! 3 = ''si'' \<and> rows ! j = (row_of (dict_reader ex_file ! j))[3 := ''si'']
                 else rows ! j ! 3 = cell (map_of (dict_reader ex_file ! j) (Some ''enviado''))
                    \<and> rows ! j = row_of (dict_reader ex_file ! j)))
   \<and> map (\<lambda>a. (at_index a, at_sent a))
        (run_log (enviar_correos ex_env_refused (Some ex_campaign) (ex_files ex_file)))
      = [(0, False), (3, True)]"
proof -
  have h1: "csv_file_path ex_campaign = Some ''contactos.csv''"
    by (simp add: ex_campaign_def)
  have h2: "ex_files ex_file ''contactos.csv'' = Some ex_file"
    by (simp add: ex_files_def)
  have h3: "run_outcome (enviar_correos ex_env_refused (Some ex_campaign) (ex_files ex_file)) = Completed"
    by code_simp
  have h4: "map (\<lambda>a. (at_index a, at_sent a))
        (run_log (enviar_correos ex_env_refused (Some ex_campaign) (ex_files ex_file)))
      = [(0, False), (3, True)]"
    by code_simp
  from completed_run [where files = "ex_files ex_file" and ev = ex_env_refused, OF h1 h2 h3]
    h1 h2 h3 h4
  show ?thesis by blast
qed

text \<open>
  C2. If the connection setup (connect, STARTTLS, login) fails, no send is attempted and
  no file is written: the files after the run are the files before it.
\<close>

theorem connect_failure_no_rewrite:
  assumes "connect_result ev = Some e"
  shows "run_files (enviar_correos ev campaign_config files) = files
       \<and> run_log (enviar_correos ev campaign_config files) = []"
  using assms
  by (simp add: enviar_correos_def session_def Let_def split: option.splits sum.splits)

theorem connect_failure_no_rewrite_witness:
  "connect_result ex_env_auth = Some SMTPAuthenticationError
   \<and> run_files (enviar_correos ex_env_auth (Some ex_campaign) (ex_files ex_file)) = ex_files ex_file
   \<and> run_log (enviar_correos ex_env_auth (Some ex_campaign) (ex_files ex_file)) = []
   \<and> run_outcome (enviar_correos ex_env_auth (Some ex_campaign) (ex_files ex_file))
      = ConnectFailed SMTPAuthenticationError"
proof -
  have h: "connect_result ex_env_auth = Some SMTPAuthenticationError"
    by (simp add: ex_env_auth_def)
  have o: "run_outcome (enviar_correos ex_env_auth (Some ex_campaign) (ex_files ex_file))
      = ConnectFailed SMTPAuthenticationError"
    by code_simp
  from connect_failure_no_rewrite [OF h, of "Some ex_campaign" "ex_files ex_file"] h o
  show ?thesis by simp
qed

text \<open>
  C7. Rendering depends on the recipient's name only through its first token: two
  renderings of the same template for names with the same first name give the same
  personalised HTML and the same final HTML.
\<close>

theorem render_same_first_name:
  assumes "first_name nombre1 = first_name nombre2"
  shows "personalize nombre1 html_template = personalize nombre2 html_template
       \<and> render nombre1 html_template filenames = render nombre2 html_template filenames"
  using assms by (simp add: personalize_def render_def)

theorem render_same_first_name_witness:
  "first_name ''Ana Ruiz'' = first_name ''Ana''
   \<and> personalize ''Ana Ruiz'' (Some ''Hola $name'') = personalize ''Ana'' (Some ''Hola $name'')
   \<and> render ''Ana Ruiz'' (Some ''Hola $name'') [''logo.png'']
      = render ''Ana'' (Some ''Hola $name'') [''logo.png'']
   \<and> render ''Ana'' (Some ''Hola $name'') [''logo.png''] = Inr ''Hola Ana''"
proof -
  have h: "first_name ''Ana Ruiz'' = first_name ''Ana''"
    by code_simp
  have v: "render ''Ana'' (Some ''Hola $name'') [''logo.png''] = Inr ''Hola Ana''"
    by code_simp
  from render_same_first_name [OF h, of "Some ''Hola $name''" "[''logo.png'']"] h v
  show ?thesis by simp
qed

text \<open>
  C10. If the contact list is loaded and every contact has \<open>enviado\<close> equal to \<open>si\<close>
  once lowercased and trimmed, the run returns at line 254: whatever the network would
  do, nothing is attempted and no file is written.
\<close>

theorem all_sent_returns_early:
  assumes "csv_file_path cam = Some path"
    and "truthy (template_es cam) \<or> truthy (template_en cam)"
    and "files path = Some f"
    and "dict_reader f \<noteq> []"
    and "\<forall>c\<in>set (dict_reader f). lower_strip c ''enviado'' ''no'' = Inr ''si''"
  shows "enviar_correos ev (Some cam) files =
           \<lparr>run_outcome = NothingPending, run_files = files, run_log = []\<rparr>"
  using assms count_pendientes_all_si [of "dict_reader f"]
  by (auto simp add: enviar_correos_def Let_def)

theorem all_sent_returns_early_witness:
  "csv_file_path ex_campaign = Some ''contactos.csv''
   \<and> (truthy (template_es ex_campaign) \<or> truthy (template_en ex_campaign))
   \<and> ex_files ex_file_sent ''contactos.csv'' = Some ex_file_sent
   \<and> dict_reader ex_file_sent \<noteq> []
   \<and> list_all (\<lambda>c. lower_strip c ''enviado'' ''no'' = Inr ''si'') (dict_reader ex_file_sent)
   \<and> enviar_correos ex_env (Some ex_campaign) (ex_files ex_file_sent) =
           \<lparr>run_outcome = NothingPending, run_files = ex_files ex_file_sent, run_log = []\<rparr>"
proof -
  have h1: "csv_file_path ex_campaign = Some ''contactos.csv''"
    by (simp add: ex_campaign_def)
  have h2: "truthy (template_es ex_campaign) \<or> truthy (template_en ex_campaign)"
    by (simp add: ex_campaign_def truthy_def)
  have h3: "ex_files ex_file_sent ''contactos.csv'' = Some ex_file_sent"
    by (simp add: ex_files_def)
  have h4: "dict_reader ex_file_sent \<noteq> []"
    by (simp add: ex_file_sent_def)
  have h5: "\<forall>c\<in>set (dict_reader ex_file_sent). lower_strip c ''enviado'' ''no'' = Inr ''si''"
    by code_simp
  from all_sent_returns_early [where files = "ex_files ex_file_sent" and ev = ex_env,
      OF h1 h2 h3 h4 h5] h1 h2 h3 h4 h5
  show ?thesis by (simp add: list_all_iff)
qed







text \<open>
  C8. For a contact whose \<open>nombre\<close> is absent, empty or only whitespace, the body of
  the loop raises \<open>IndexError\<close> at line 268, whatever the campaign, the position and the
  state of the session: it never reaches the skip of line 278. A run over a list with
  such a contact never rewrites the file and never completes, attempts no contact at or
  after that position, and once it has connected it ends in the generic handler, with
  \<open>IndexError\<close> when the rows before read without error.
\<close>

theorem blank_nombre_aborts:
  assumes "csv_file_path cam = Some path" and "files path = Some f"
    and "j < length (dict_reader f)"
    and "dict_get (dict_reader f ! j) ''nombre'' [] = PStr s"
    and "\<forall>ch\<in>set s. is_space ch"
  shows "procesar_contacto ev cam i srv (dict_reader f ! j) = Raised IndexError
       \<and> run_files (enviar_correos ev (Some cam) files) = files
       \<and> run_outcome (enviar_correos ev (Some cam) files) \<noteq> Completed
       \<and> (\<forall>a\<in>set (run_log (enviar_correos ev (Some cam) files)). at_index a < j)
       \<and> (connect_result ev = None
            \<and> (truthy (template_es cam) \<or> truthy (template_en cam))
            \<and> (\<exists>n. count_pendientes (dict_reader f) = Inr (Suc n))
          \<longrightarrow> (\<exists>e. run_outcome (enviar_correos ev (Some cam) files) = Unexpected e)
              \<and> ((\<forall>k<j. \<exists>fl. read_fields (dict_reader f ! k) = Inr fl)
                   \<longrightarrow> run_outcome (enviar_correos ev (Some cam) files) = Unexpected IndexError))"
proof -
  let ?r = "enviar_correos ev (Some cam) files"
  let ?L = "send_loop ev cam 0 Connected (dict_reader f)"
  have rf: "read_fields (dict_reader f ! j) = Inl IndexError"
    by (rule blank_nombre_raises [OF assms(4,5)])
  then have step: "procesar_contacto ev cam i srv (dict_reader f ! j) = Raised IndexError"
    by (simp add: procesar_contacto_def)
  note r = run_raise [where files = files and ev = ev, OF assms(1,2,3) rf]
  have reach: "(\<exists>e. run_outcome ?r = Unexpected e)
      \<and> ((\<forall>k<j. \<exists>fl. read_fields (dict_reader f ! k) = Inr fl)
           \<longrightarrow> run_outcome ?r = Unexpected IndexError)"
    if c: "connect_result ev = None"
      and t: "truthy (template_es cam) \<or> truthy (template_en cam)"
      and p: "\<exists>n. count_pendientes (dict_reader f) = Inr (Suc n)"
  proof -
    from p obtain n where "count_pendientes (dict_reader f) = Inr (Suc n)" ..
    from run_reaches_session [where files = files and ev = ev, OF assms(1,2) t this]
    have run: "?r = session ev cam path files (dict_reader f)" .
    from loop_raise [OF assms(3) rf, of ev cam 0 Connected]
    obtain e where e: "lr_error ?L = Some e" by auto
    from session_loop_error [OF c e] run have "run_outcome ?r = Unexpected e" by simp
    moreover have "run_outcome ?r = Unexpected IndexError"
      if "\<forall>k<j. \<exists>fl. read_fields (dict_reader f ! k) = Inr fl"
      using session_loop_error [OF c loop_first_raise [OF assms(3) rf that]] run by simp
    ultimately show ?thesis by blast
  qed
  from step r reach show ?thesis by blast
qed

theorem blank_nombre_aborts_witness:
  "csv_file_path ex_campaign = Some ''contactos.csv''
   \<and> ex_files ex_file_blank ''contactos.csv'' = Some ex_file_blank
   \<and> 1 < length (dict_reader ex_file_blank)
   \<and> dict_get (dict_reader ex_file_blank ! 1) ''nombre'' [] = PStr ''  ''
   \<and> list_all is_space ''  ''
   \<and> connect_result ex_env = None
   \<and> (truthy (template_es ex_campaign) \<or> truthy (template_en ex_campaign))
   \<and> count_pendientes (dict_reader ex_file_blank) = Inr (Suc 2)
   \<and> \<not> isl (read_fields (dict_reader ex_file_blank ! 0))
   \<and> procesar_contacto ex_env ex_campaign 1 Connected (dict_reader ex_file_blank ! 1) = Raised IndexError
   \<and> run_files (enviar_correos ex_env (Some ex_campaign) (ex_files ex_file_blank)) = ex_files ex_file_blank
   \<and> run_outcome (enviar_correos ex_env (Some ex_campaign) (ex_files ex_file_blank)) = Unexpected IndexError
   \<and> map at_index (run_log (enviar_correos ex_env (Some ex_campaign) (ex_files ex_file_blank))) = [0]"
proof -
  have h1: "csv_file_path ex_campaign = Some ''contactos.csv''"
    by (simp add: ex_campaign_def)
  have h2: "ex_files ex_file_blank ''contactos.csv'' = Some ex_file_blank"
    by (simp add: ex_files_def)
  have h3: "1 < length (dict_reader ex_file_blank)"
    by (simp add: ex_file_blank_def)
  have h4: "dict_get (dict_reader ex_file_blank ! 1) ''nombre'' [] = PStr ''  ''"
    by code_simp
  have h5: "\<forall>ch\<in>set ''  ''. is_space ch"
    by (simp add: is_space_def)
  have c: "connect_result ex_env = None"
    by (simp add: ex_env_def)
  have t: "truthy (template_es ex_campaign) \<or> truthy (template_en ex_campaign)"
    by (simp add: ex_campaign_def truthy_def)
  have p: "count_pendientes (dict_reader ex_file_blank) = Inr (Suc 2)"
    by code_simp
  have b: "\<not> isl (read_fields (dict_reader ex_file_blank ! 0))"
    by code_simp
  then have b': "\<forall>k<1. \<exists>fl. read_fields (dict_reader ex_file_blank ! k) = Inr fl"
    by (simp add: not_isl_Inr)
  have l: "map at_index (run_log (enviar_correos ex_env (Some ex_campaign) (ex_files ex_file_blank))) = [0]"
    by code_simp
  note th = blank_nombre_aborts [where files = "ex_files ex_file_blank" and ev = ex_env
      and i = 1 and srv = Connected, OF h1 h2 h3 h4 h5]
  from th c t p b'
  have o: "run_outcome (enviar_correos ex_env (Some ex_campaign) (ex_files ex_file_blank))
             = Unexpected IndexError"
    by blast
  from th h1 h2 h3 h4 h5 c t p b l o show ?thesis
    by (simp add: list_all_iff)
qed

text \<open>
  C9. The rewrite of the contact list is not atomic. When the session connects, every row
  reads without error, some row is pending, the connection is kept, and some row has a
  key outside the five field names, \<open>DictWriter\<close> raises \<open>ValueError\<close> after the file
  has been truncated and the header written: the file is left with the header and only
  the records before the first such row, which is neither the original file nor one
  record per contact.
\<close>

theorem rewrite_not_atomic:
  assumes "csv_file_path cam = Some path" and "files path = Some f"
    and "truthy (template_es cam) \<or> truthy (template_en cam)"
    and "connect_result ev = None" and "quit_ok ev"
    and "\<forall>i. send_result ev i \<noteq> ConnectionLost"
    and "\<forall>c\<in>set (dict_reader f). \<exists>fl. read_fields c = Inr fl"
    and "\<exists>c\<in>set (dict_reader f). lower_strip c ''enviado'' ''no'' \<noteq> Inr ''si''"
    and "\<exists>c\<in>set (dict_reader f). wrong_fields c \<noteq> []"
  shows "run_outcome (enviar_correos ev (Some cam) files) = Unexpected ValueError
       \<and> (\<exists>rows. run_files (enviar_correos ev (Some cam) files) path = Some (fieldnames # rows)
             \<and> length rows = length (takeWhile (\<lambda>c. wrong_fields c = []) (dict_reader f))
             \<and> length rows < length (dict_reader f)
             \<and> fieldnames # rows \<noteq> f)"
proof -
  let ?cs = "dict_reader f"
  let ?L = "send_loop ev cam 0 Connected ?cs"
  from count_pendientes_total [OF assms(7)] assms(8)
  obtain n where "count_pendientes ?cs = Inr (Suc n)"
    by (metis gr0_implies_Suc)
  from run_reaches_session [where files = files and ev = ev, OF assms(1,2,3) this]
  have run: "enviar_correos ev (Some cam) files = session ev cam path files ?cs" .
  have ne: "lr_error ?L = None" by (rule loop_no_error [OF assms(7)])
  have up: "lr_server ?L = Connected" by (rule loop_stays_connected [OF assms(6)])
  from loop_wrong_fields [OF ne] assms(9)
  have "\<exists>c\<in>set (lr_contacts ?L). wrong_fields c \<noteq> []"
    by (metis (mono_tags, lifting) image_iff list.set_map)
  then obtain w where "update_csv (lr_contacts ?L) = (Some ValueError, w)"
    by (auto simp add: update_csv_def writerows_Some)
  with ne up assms(4,5) run
  have out: "run_outcome (enviar_correos ev (Some cam) files) = Unexpected ValueError"
    by (simp add: session_def Let_def)
  from out run_value_error [where files = files and ev = ev, OF assms(1,2) out]
  show ?thesis by blast
qed

theorem rewrite_not_atomic_witness:
  "csv_file_path ex_campaign = Some ''contactos.csv''
   \<and> ex_files ex_file_extra ''contactos.csv'' = Some ex_file_extra
   \<and> (truthy (template_es ex_campaign) \<or> truthy (template_en ex_campaign))
   \<and> connect_result ex_env = None \<and> quit_ok ex_env
   \<and> list_all (\<lambda>c. \<not> isl (read_fields c)) (dict_reader ex_file_extra)
   \<and> list_ex (\<lambda>c. lower_strip c ''enviado'' ''no'' \<noteq> Inr ''si'') (dict_reader ex_file_extra)
   \<and> list_ex (\<lambda>c. wrong_fields c \<noteq> []) (dict_reader ex_file_extra)
   \<and> run_outcome (enviar_correos ex_env (Some ex_campaign) (ex_files ex_file_extra)) = Unexpected ValueError
   \<and> run_files (enviar_correos ex_env (Some ex_campaign) (ex_files ex_file_extra)) ''contactos.csv''
       = Some [fieldnames, [''Ana Ruiz'', ''a@x.com'', ''ios'', ''si'', ''es'']]
   \<and> (\<exists>rows. run_files (enviar_correos ex_env (Some ex_campaign) (ex_files ex_file_extra)) ''contactos.csv''
                = Some (fieldnames # rows)
             \<and> length rows = length (takeWhile (\<lambda>c. wrong_fields c = []) (dict_reader ex_file_extra))
             \<and> length rows < length (dict_reader ex_file_extra)
             \<and> fieldnames # rows \<noteq> ex_file_extra)"
proof -
  have h1: "csv_file_path ex_campaign = Some ''contactos.csv''"
    by (simp add: ex_campaign_def)
  have h2: "ex_files ex_file_extra ''contactos.csv'' = Some ex_file_extra"
    by (simp add: ex_files_def)
  have h3: "truthy (template_es ex_campaign) \<or> truthy (template_en ex_campaign)"
    by (simp add: ex_campaign_def truthy_def)
  have h4: "connect_result ex_env = None" and h5: "quit_ok ex_env"
    and h6: "\<forall>i. send_result ex_env i \<noteq> ConnectionLost"
    by (simp_all add: ex_env_def)
  have l7: "list_all (\<lambda>c. \<not> isl (read_fields c)) (dict_reader ex_file_extra)"
    by code_simp
  then have h7: "\<forall>c\<in>set (dict_reader ex_file_extra). \<exists>fl. read_fields c = Inr fl"
    by (simp add: list_all_iff not_isl_Inr)
  have l8: "list_ex (\<lambda>c. lower_strip c ''enviado'' ''no'' \<noteq> Inr ''si'') (dict_reader ex_file_extra)"
    by code_simp
  then have h8: "\<exists>c\<in>set (dict_reader ex_file_extra). lower_strip c ''enviado'' ''no'' \<noteq> Inr ''si''"
    by (simp add: list_ex_iff)
  have l9: "list_ex (\<lambda>c. wrong_fields c \<noteq> []) (dict_reader ex_file_extra)"
    by code_simp
  then have h9: "\<exists>c\<in>set (dict_reader ex_file_extra). wrong_fields c \<noteq> []"
    by (simp add: list_ex_iff)
  have v: "run_files (enviar_correos ex_env (Some ex_campaign) (ex_files ex_file_extra)) ''contactos.csv''
       = Some [fieldnames, [''Ana Ruiz'', ''a@x.com'', ''ios'', ''si'', ''es'']]"
    by code_simp
  from rewrite_not_atomic [where files = "ex_files ex_file_extra" and ev = ex_env,
      OF h1 h2 h3 h4 h5 h6 h7 h8 h9] h1 h2 h3 h4 h5 l7 l8 l9 v
  show ?thesis by blast
qed

text \<open>
  C3. The claim that a connection lost during the batch halts the remaining sends fails:
  the \<open>SMTPServerDisconnected\<close> of \<open>sendmail\<close> is caught by the handler of line 310 like
  any failure of one recipient, and the loop goes on. Below, the connection is lost on
  the first contact (position 0) and the contact at position 3 is attempted all the same.
\<close>

theorem connection_lost_counterexample:
  "send_result ex_env_lost 0 = ConnectionLost
   \<and> map at_index (run_log (enviar_correos ex_env_lost (Some ex_campaign) (ex_files ex_file))) = [0, 3]
   \<and> map at_sent (run_log (enviar_correos ex_env_lost (Some ex_campaign) (ex_files ex_file)))
       = [False, False]
   \<and> run_outcome (enviar_correos ex_env_lost (Some ex_campaign) (ex_files ex_file))
       = Unexpected SMTPServerDisconnected"
  by code_simp

text \<open>
  C3, as amended. If the connection is lost while the message of some contact is being
  submitted, the loop goes on: every pending contact is attempted, before and after the
  loss, as long as its row and the rows before it read without error. No send at or
  after the loss succeeds. The run ends in the generic handler, with the
  \<open>SMTPServerDisconnected\<close> of \<open>quit\<close> when every row reads without error, that is, only
  when the session is closed after the whole loop. The contact-list file is not
  rewritten: every contact, attempted or not, keeps its prior \<open>enviado\<close> value in the
  file.
\<close>

theorem connection_lost_no_rewrite:
  assumes "csv_file_path cam = Some path" and "files path = Some f"
    and "a \<in> set (run_log (enviar_correos ev (Some cam) files))"
    and "send_result ev (at_index a) = ConnectionLost"
    and "at_message a = Inr m"
  shows "run_files (enviar_correos ev (Some cam) files) = files
       \<and> (\<exists>e. run_outcome (enviar_correos ev (Some cam) files) = Unexpected e)
       \<and> (\<forall>b\<in>set (run_log (enviar_correos ev (Some cam) files)).
             at_index a \<le> at_index b \<longrightarrow> \<not> at_sent b)
       \<and> (\<forall>j<length (dict_reader f).
             (\<forall>k<j. \<not> isl (read_fields (dict_reader f ! k))) \<longrightarrow> pending (dict_reader f ! j) \<longrightarrow>
             (\<exists>b\<in>set (run_log (enviar_correos ev (Some cam) files)). at_index b = j))
       \<and> ((\<forall>c\<in>set (dict_reader f). \<not> isl (read_fields c)) \<longrightarrow>
             run_outcome (enviar_correos ev (Some cam) files) = Unexpected SMTPServerDisconnected)"
proof -
  let ?r = "enviar_correos ev (Some cam) files"
  let ?L = "send_loop ev cam 0 Connected (dict_reader f)"
  from run_log_cases [where files = files and ev = ev, OF assms(1,2)] assms(3)
  have run: "?r = session ev cam path files (dict_reader f)"
    and c: "connect_result ev = None"
    and log: "run_log ?r = lr_log ?L"
    by auto
  from assms(3) log have "a \<in> set (lr_log ?L)" by simp
  from loop_lost [OF this assms(4,5)]
  have down: "lr_server ?L = Disconnected"
    and later: "\<forall>b\<in>set (lr_log ?L). at_index a \<le> at_index b \<longrightarrow> \<not> at_sent b"
    by simp_all
  from down have "lr_error ?L \<noteq> None \<or> lr_server ?L = Disconnected" by simp
  note e = session_error [OF this, of path files]
  have first: "run_files ?r = files \<and> (\<exists>e. run_outcome ?r = Unexpected e)
      \<and> (\<forall>b\<in>set (run_log ?r). at_index a \<le> at_index b \<longrightarrow> \<not> at_sent b)"
    using e(1) e(3) [OF c] run later log by simp
  have goes_on: "\<exists>b\<in>set (run_log ?r). at_index b = j"
    if "j < length (dict_reader f)"
      and "\<forall>k<j. \<not> isl (read_fields (dict_reader f ! k))"
      and "pending (dict_reader f ! j)" for j
    using loop_attempts_pending [OF that, of ev cam 0 Connected] log by simp
  have at_quit: "run_outcome ?r = Unexpected SMTPServerDisconnected"
    if "\<forall>c\<in>set (dict_reader f). \<not> isl (read_fields c)"
  proof -
    from that have "\<forall>c\<in>set (dict_reader f). \<exists>fl. read_fields c = Inr fl"
      by (simp add: not_isl_Inr)
    from loop_no_error [OF this] have "lr_error ?L = None" .
    from session_quit_raises [OF c this down] run show ?thesis by simp
  qed
  from first goes_on at_quit show ?thesis by blast
qed

theorem connection_lost_no_rewrite_witness:
  "csv_file_path ex_campaign = Some ''contactos.csv''
   \<and> ex_files ex_file ''contactos.csv'' = Some ex_file
   \<and> hd (run_log (enviar_correos ex_env_lost (Some ex_campaign) (ex_files ex_file)))
        \<in> set (run_log (enviar_correos ex_env_lost (Some ex_campaign) (ex_files ex_file)))
   \<and> at_index (hd (run_log (enviar_correos ex_env_lost (Some ex_campaign) (ex_files ex_file)))) = 0
   \<and> send_result ex_env_lost 0 = ConnectionLost
   \<and> \<not> isl (at_message (hd (run_log (enviar_correos ex_env_lost (Some ex_campaign) (ex_files ex_file)))))
   \<and> 3 < length (dict_reader ex_file)
   \<and> list_all (\<lambda>c. \<not> isl (read_fields c)) (dict_reader ex_file)
   \<and> pending (dict_reader ex_file ! 3)
   \<and> run_files (enviar_correos ex_env_lost (Some ex_campaign) (ex_files ex_file)) = ex_files ex_file
   \<and> run_outcome (enviar_correos ex_env_lost (Some ex_campaign) (ex_files ex_file))
       = Unexpected SMTPServerDisconnected
   \<and> list_all (\<lambda>b. \<not> at_sent b)
        (run_log (enviar_correos ex_env_lost (Some ex_campaign) (ex_files ex_file)))
   \<and> list_ex (\<lambda>b. at_index b = 3)
        (run_log (enviar_correos ex_env_lost (Some ex_campaign) (ex_files ex_file)))"
proof -
  let ?r = "enviar_correos ex_env_lost (Some ex_campaign) (ex_files ex_file)"
  have h1: "csv_file_path ex_campaign = Some ''contactos.csv''"
    by (simp add: ex_campaign_def)
  have h2: "ex_files ex_file ''contactos.csv'' = Some ex_file"
    by (simp add: ex_files_def)
  have ix: "map at_index (run_log ?r) = [0, 3]"
    by code_simp
  then have ne: "run_log ?r \<noteq> []" by auto
  then have h3: "hd (run_log ?r) \<in> set (run_log ?r)" by simp
  from ix ne have i0: "at_index (hd (run_log ?r)) = 0"
    by (cases "run_log ?r") simp_all
  have lost: "send_result ex_env_lost 0 = ConnectionLost"
    by (simp add: ex_env_lost_def ex_env_def)
  with i0 have h4: "send_result ex_env_lost (at_index (hd (run_log ?r))) = ConnectionLost"
    by simp
  have built: "\<not> isl (at_message (hd (run_log ?r)))"
    by code_simp
  then obtain m where h5: "at_message (hd (run_log ?r)) = Inr m"
    by (auto simp add: not_isl_Inr)
  have len: "3 < length (dict_reader ex_file)"
    by (simp add: ex_file_def)
  have rd: "list_all (\<lambda>c. \<not> isl (read_fields c)) (dict_reader ex_file)"
    by code_simp
  then have rd': "\<forall>c\<in>set (dict_reader ex_file). \<not> isl (read_fields c)"
    by (simp add: list_all_iff)
  with len have rd'': "\<forall>k<3. \<not> isl (read_fields (dict_reader ex_file ! k))"
    by simp
  have pe: "pending (dict_reader ex_file ! 3)"
    by code_simp
  note th = connection_lost_no_rewrite [where files = "ex_files ex_file" and ev = ex_env_lost,
      OF h1 h2 h3 h4 h5]
  from th have same: "run_files ?r = ex_files ex_file" by blast
  from th rd' have out: "run_outcome ?r = Unexpected SMTPServerDisconnected" by blast
  from th len rd'' pe have "\<exists>b\<in>set (run_log ?r). at_index b = 3" by blast
  then have on: "list_ex (\<lambda>b. at_index b = 3) (run_log ?r)"
    by (simp add: list_ex_iff)
  from ix have "\<forall>b\<in>set (run_log ?r). at_index (hd (run_log ?r)) \<le> at_index b"
    using i0 by simp
  with th have none: "list_all (\<lambda>b. \<not> at_sent b) (run_log ?r)"
    by (simp add: list_all_iff)
  from h1 h2 h3 i0 lost built len rd pe same out none on show ?thesis by simp
qed

text \<open>
  C6. The claim that the rewriting touches exactly the references to known filenames
  fails for filenames that contain a double quote. With the known names \<open>b.png\<close> and
  \<open>a" src="cid:b_png" .png\<close>, the HTML \<open>src="images/a" src="images/b.png" .png"\<close> holds one
  reference to a known name, \<open>src="images/b.png"\<close>. Once that one is rewritten, the text
  reads as a reference to the second name, and the second pass rewrites
  \<open>src="images/a"\<close> and the \<open>.png\<close> behind, which refer to no known name.
\<close>

theorem image_rewriting_counterexample:
  "is_image_name (ex_odd_names ! 0) \<and> is_image_name (ex_odd_names ! 1)
   \<and> rewrite_scan ex_odd_names ex_odd_html = ''src=\"images/a\" src=\"cid:b_png\" .png\"''
   \<and> rewrite_images ex_odd_names ex_odd_html = ''src=\"cid:a\" src=\"cid:b_png\" _png\"''
   \<and> rewrite_images ex_odd_names ex_odd_html \<noteq> rewrite_scan ex_odd_names ex_odd_html"
  by code_simp

text \<open>
  C6, as amended. For known filenames that contain no double quote and end in an image
  extension, as the names kept by \<open>get_images_to_embed\<close> do on a file system without
  quotes in names, the loop of lines 159 to 165 is the single pass from the left that
  replaces every \<open>src="images/<filename>"\<close> of a known filename by
  \<open>src="cid:<contentId>"\<close> and copies every other character; the content id is the
  filename with every \<open>.\<close> replaced by \<open>_\<close>; and the rendering of a template is that pass
  over the template with the first name put in.
\<close>

theorem image_rewriting_single_pass:
  assumes "\<forall>f\<in>set filenames. CHR 0x22 \<notin> set f \<and> is_image_name f"
  shows "rewrite_images filenames html = rewrite_scan filenames html
       \<and> (\<forall>f. cid_of f = map (\<lambda>c. if c = CHR ''.'' then CHR ''_'' else c) f)
       \<and> (\<forall>nombre fn t. first_name nombre = Inr fn \<longrightarrow>
             render nombre (Some t) filenames
               = Inr (rewrite_scan filenames (replace t ''$name'' fn)))"
proof -
  have scan: "rewrite_images fs h = rewrite_scan fs h"
    if "\<forall>f\<in>set fs. CHR 0x22 \<notin> set f \<and> is_image_name f" for fs h
    using that
  proof (induction fs arbitrary: h)
    case Nil
    show ?case by simp
  next
    case (Cons f fs)
    then have f: "CHR 0x22 \<notin> set f" "is_image_name f"
      and fs: "\<forall>g\<in>set fs. CHR 0x22 \<notin> set g \<and> is_image_name g"
      by simp_all
    have "rewrite_images (f # fs) h = rewrite_images fs (rewrite_scan [f] h)"
      by (simp add: replace_eq_scan)
    also have "\<dots> = rewrite_scan fs (rewrite_scan [f] h)"
      by (rule Cons.IH [OF fs])
    also have "\<dots> = rewrite_scan (f # fs) h"
      by (rule scan_after_single [OF f fs])
    finally show ?case .
  qed
  have "render nombre (Some t) filenames = Inr (rewrite_scan filenames (replace t ''$name'' fn))"
    if "first_name nombre = Inr fn" for nombre fn t
    using that scan [OF assms] by (simp add: render_def personalize_def)
  with scan [OF assms] cid_of_map show ?thesis by blast
qed

theorem image_rewriting_single_pass_witness:
  "list_all (\<lambda>f. CHR 0x22 \<notin> set f \<and> is_image_name f) ex_names
   \<and> first_name ''Ana Ruiz'' = Inr ''Ana''
   \<and> rewrite_images ex_names ex_html = rewrite_scan ex_names ex_html
   \<and> render ''Ana Ruiz'' (Some ex_html) ex_names
       = Inr (rewrite_scan ex_names (replace ex_html ''$name'' ''Ana''))
   \<and> render ''Ana Ruiz'' (Some ex_html) ex_names
       = Inr ''<p>Hola Ana</p><img src=\"cid:logo_png\"><img src=\"images/otra.png\"><img src=\"cid:Foto_JPG\">''"
proof -
  have h: "list_all (\<lambda>f. CHR 0x22 \<notin> set f \<and> is_image_name f) ex_names"
    by code_simp
  then have h': "\<forall>f\<in>set ex_names. CHR 0x22 \<notin> set f \<and> is_image_name f"
    by (simp add: list_all_iff)
  have n: "first_name ''Ana Ruiz'' = Inr ''Ana''"
    by code_simp
  have v: "render ''Ana Ruiz'' (Some ex_html) ex_names
       = Inr ''<p>Hola Ana</p><img src=\"cid:logo_png\"><img src=\"images/otra.png\"><img src=\"cid:Foto_JPG\">''"
    by code_simp
  from image_rewriting_single_pass [OF h', of ex_html] n
  have "rewrite_images ex_names ex_html = rewrite_scan ex_names ex_html"
    and "render ''Ana Ruiz'' (Some ex_html) ex_names
       = Inr (rewrite_scan ex_names (replace ex_html ''$name'' ''Ana''))"
    by blast+
  with h n v show ?thesis by simp
qed

end
